theory Spec2Isabelle
  imports Complex_Main "HOL-Library.Product_Lexorder" "HOL-Library.Multiset"
begin

section \<open>Data model of \<open>schedule_analyzer.py\<close>\<close>

text \<open>
  The analyzer works on Python dictionaries. An outage dictionary is read with
  \<^verbatim>\<open>outage.get("start_hour", 0)\<close> and \<^verbatim>\<open>outage.get("end_hour", 0)\<close>, a schedule
  dictionary with \<^verbatim>\<open>schedule.get("outages", [])\<close>, \<^verbatim>\<open>schedule["user_id"]\<close> and
  \<^verbatim>\<open>schedule["username"]\<close>. Each key that is read becomes a field of a record whose
  value is \<open>None\<close> when the key is absent.

  Hours are Python floats, that is IEEE 754 binary64 numbers. A float is modelled as
  the real number it denotes, and a float operation of the source as the exact
  operation followed by \<open>round_to_double\<close>, the rounding to the nearest double with
  ties to even (see the section on time conversion). Infinities and NaN are not
  values of the model.
\<close>

record outage =
  start_hour :: "real option"
  end_hour :: "real option"

record schedule =
  user_id :: "int option"
  username :: "string option"
  outages :: "outage list option"

text \<open>
  The dictionary appended to \<^verbatim>\<open>results\<close> by \<^verbatim>\<open>find_n_minus_one_periods\<close>. The keys
  \<^verbatim>\<open>"start"\<close> and \<^verbatim>\<open>"end"\<close> are the fields \<open>start_minute\<close> and \<open>end_minute\<close>.
\<close>

record exclusion =
  missing_user_id :: int
  missing_username :: string
  start_minute :: int
  end_minute :: int
  start_hhmm :: string
  end_hhmm :: string
  duration_minutes :: int

datatype py_error = KeyError string

section \<open>Time conversion\<close>

text \<open>
  Rounding of a real to the nearest integer, a tie going to the even one.
\<close>

definition round_half_even :: "real \<Rightarrow> int" where
  "round_half_even y =
     (let f = \<lfloor>y\<rfloor>; r = y - of_int f
      in if r < 1 / 2 then f else if 1 / 2 < r then f + 1 else if even f then f else f + 1)"

text \<open>
  The binary exponent of a real: the greatest \<open>e\<close> with \<open>2 powi e \<le> \<bar>x\<bar>\<close>, searched downwards
  from 1023 and not below - 1022, the exponent of the subnormal numbers and of zero.
\<close>

fun exponent_from :: "nat \<Rightarrow> int \<Rightarrow> real \<Rightarrow> int" where
  "exponent_from 0 e x = e"
| "exponent_from (Suc n) e x = (if 2 powi e \<le> \<bar>x\<bar> then e else exponent_from n (e - 1) x)"

definition binade :: "real \<Rightarrow> int" where
  "binade x = exponent_from 2045 1023 x"

text \<open>
  A double has 53 significant bits, so the doubles of the binade of \<open>x\<close> are the
  multiples of \<open>ulp x\<close>. \<open>round_to_double\<close> is the rounding of IEEE 754 (nearest,
  ties to even) for every real below the overflow threshold; the operations of
  \<open>convert_hour_to_minutes\<close> that it is applied to cannot overflow, the difference
  being smaller than 1 in magnitude and the product smaller than 60.
\<close>

definition ulp :: "real \<Rightarrow> real" where
  "ulp x = 2 powi (binade x - 52)"

definition round_to_double :: "real \<Rightarrow> real" where
  "round_to_double x = of_int (round_half_even (x / ulp x)) * ulp x"

text \<open>The reals that are finite doubles.\<close>

definition is_double :: "real \<Rightarrow> bool" where
  "is_double x = (round_to_double x = x \<and> \<bar>x\<bar> < 2 powi 1024)"

text \<open>Python's \<^verbatim>\<open>int(x)\<close> on a float truncates towards zero.\<close>

definition py_int :: "real \<Rightarrow> int" where
  "py_int x = (if 0 \<le> x then \<lfloor>x\<rfloor> else \<lceil>x\<rceil>)"

text \<open>
  The argument \<^verbatim>\<open>hour\<close> is a float: a real that is not a double stands for the
  nearest double, as the literal \<^verbatim>\<open>1.999\<close> does in Python, and on a double the first
  line changes nothing. In \<^verbatim>\<open>hour - hours\<close> the integer \<^verbatim>\<open>hours\<close> is converted to a
  float, which is exact for the integer part of a double; the difference and the
  product with 60 are float operations.
\<close>

definition convert_hour_to_minutes :: "real \<Rightarrow> int" where
  "convert_hour_to_minutes hour_value =
     (let hour = round_to_double hour_value;
          hours = py_int hour;
          minutes = py_int (round_to_double (round_to_double (hour - of_int hours) * 60))
      in hours * 60 + minutes)"

text \<open>
  The format specification \<^verbatim>\<open>02d\<close>: the decimal digits of the number, padded with
  zeros to a width of two; the sign of a negative number counts for the width and
  comes before the padding.
\<close>

definition digit_char :: "nat \<Rightarrow> char" where
  "digit_char d = ''0123456789'' ! d"

function dec_digits :: "nat \<Rightarrow> string" where
  "dec_digits n = (if n < 10 then [digit_char n] else dec_digits (n div 10) @ [digit_char (n mod 10)])"
  by pat_completeness auto
termination
  by (relation "measure (\<lambda>n. n)") auto

definition fmt_02d :: "int \<Rightarrow> string" where
  "fmt_02d n =
     (if n < 0 then
        (let ds = dec_digits (nat (- n)) in CHR ''-'' # replicate (1 - length ds) CHR ''0'' @ ds)
      else
        (let ds = dec_digits (nat n) in replicate (2 - length ds) CHR ''0'' @ ds))"

definition minutes_to_hhmm :: "int \<Rightarrow> string" where
  "minutes_to_hhmm minutes =
     (let hours = minutes div 60;
          mins = minutes mod 60
      in fmt_02d hours @ '':'' @ fmt_02d mins)"

section \<open>Availability deriver\<close>

definition get_start_hour :: "outage \<Rightarrow> real" where
  "get_start_hour ou = (case start_hour ou of None \<Rightarrow> 0 | Some h \<Rightarrow> h)"

definition get_end_hour :: "outage \<Rightarrow> real" where
  "get_end_hour ou = (case end_hour ou of None \<Rightarrow> 0 | Some h \<Rightarrow> h)"

definition get_outages :: "schedule \<Rightarrow> outage list" where
  "get_outages sch = (case outages sch of None \<Rightarrow> [] | Some os \<Rightarrow> os)"

text \<open>
  \<^verbatim>\<open>sorted(intervals)\<close> orders the tuples lexicographically, which is the order of
  pairs of \<open>HOL-Library.Product_Lexorder\<close>.
\<close>

definition get_outage_intervals :: "outage list \<Rightarrow> (int \<times> int) list" where
  "get_outage_intervals os =
     sort (map (\<lambda>ou. (convert_hour_to_minutes (get_start_hour ou),
                       convert_hour_to_minutes (get_end_hour ou))) os)"

text \<open>The loop \<^verbatim>\<open>for i in range(len(outage_intervals) - 1)\<close> over adjacent outages.\<close>

definition between_outages :: "(int \<times> int) list \<Rightarrow> (int \<times> int) list" where
  "between_outages outage_intervals =
     concat (map (\<lambda>i. let gap_start = snd (outage_intervals ! i);
                            gap_end = fst (outage_intervals ! (i + 1))
                        in if gap_start < gap_end then [(gap_start, gap_end)] else [])
                 [0..<length outage_intervals - 1])"

definition get_electricity_periods :: "outage list \<Rightarrow> (int \<times> int) list" where
  "get_electricity_periods os =
     (let outage_intervals = get_outage_intervals os in
      if outage_intervals = [] then [(0, 24 * 60)]
      else
        (if fst (outage_intervals ! 0) > 0 then [(0, fst (outage_intervals ! 0))] else [])
        @ between_outages outage_intervals
        @ (if snd (last outage_intervals) < 24 * 60
           then [(snd (last outage_intervals), 24 * 60)] else []))"

section \<open>Multi-user intersection engine\<close>

text \<open>The inner loop with \<^verbatim>\<open>break\<close>: is there a period with \<^verbatim>\<open>start <= point < end\<close>?\<close>

definition has_power :: "(int \<times> int) list \<Rightarrow> int \<Rightarrow> bool" where
  "has_power electricity_periods point =
     list_ex (\<lambda>(s, e). s \<le> point \<and> point < e) electricity_periods"

definition all_have_power :: "schedule list \<Rightarrow> int \<Rightarrow> bool" where
  "all_have_power schedules point =
     list_all (\<lambda>sch. has_power (get_electricity_periods (get_outages sch)) point) schedules"

text \<open>The set \<^verbatim>\<open>all_points\<close>, filled from \<^verbatim>\<open>set([0, 24 * 60])\<close> with both ends of every period.\<close>

definition collect_points :: "schedule list \<Rightarrow> int set" where
  "collect_points schedules =
     fold (\<lambda>sch pts. fold (\<lambda>(s, e) pts'. insert e (insert s pts'))
                          (get_electricity_periods (get_outages sch)) pts)
          schedules {0, 24 * 60}"

text \<open>One iteration of the sweep \<^verbatim>\<open>for i in range(len(all_points) - 1)\<close>.\<close>

definition sweep_step :: "schedule list \<Rightarrow> int list \<Rightarrow> nat \<Rightarrow> (int \<times> int) list \<Rightarrow> (int \<times> int) list" where
  "sweep_step schedules all_points i common_periods =
     (let point = all_points ! i;
          next_point = all_points ! (i + 1)
      in if all_have_power schedules point then
           (if common_periods \<noteq> [] \<and> snd (last common_periods) = point
            then common_periods[length common_periods - 1 := (fst (last common_periods), next_point)]
            else common_periods @ [(point, next_point)])
         else common_periods)"

definition find_common_electricity_periods :: "schedule list \<Rightarrow> (int \<times> int) list \<times> exclusion list" where
  "find_common_electricity_periods schedules =
     (if schedules = [] then ([], [])
      else if length schedules = 1 then
        (get_electricity_periods (get_outages (schedules ! 0)), [])
      else
        (let all_points = sorted_list_of_set (collect_points schedules)
         in (fold (sweep_step schedules all_points) [0..<length all_points - 1] [], [])))"

section \<open>Exclusion analyzer\<close>

text \<open>The two nested loops over \<^verbatim>\<open>common_periods\<close> and \<^verbatim>\<open>excluded_outages\<close>.\<close>

definition overlap_records :: "int \<Rightarrow> string \<Rightarrow> (int \<times> int) list \<Rightarrow> (int \<times> int) list \<Rightarrow> exclusion list" where
  "overlap_records excluded_user_id excluded_username common_periods excluded_outages =
     concat (map (\<lambda>(other_start, other_end).
       concat (map (\<lambda>(outage_start, outage_end).
         (let overlap_start = max other_start outage_start;
              overlap_end = min other_end outage_end
          in if overlap_start < overlap_end then
               [\<lparr> missing_user_id = excluded_user_id,
                   missing_username = excluded_username,
                   start_minute = overlap_start,
                   end_minute = overlap_end,
                   start_hhmm = minutes_to_hhmm overlap_start,
                   end_hhmm = minutes_to_hhmm overlap_end,
                   duration_minutes = overlap_end - overlap_start \<rparr>]
             else [])) excluded_outages)) common_periods)"

definition other_schedules :: "schedule list \<Rightarrow> nat \<Rightarrow> schedule list" where
  "other_schedules schedules excluded_idx =
     take excluded_idx schedules @ drop (excluded_idx + 1) schedules"

text \<open>
  The loop \<^verbatim>\<open>for excluded_idx, excluded_schedule in enumerate(schedules)\<close>; a missing
  key \<^verbatim>\<open>"user_id"\<close> or \<^verbatim>\<open>"username"\<close> raises \<^verbatim>\<open>KeyError\<close> and ends the call.
\<close>

fun exclusion_loop :: "schedule list \<Rightarrow> nat list \<Rightarrow> exclusion list \<Rightarrow> py_error + exclusion list" where
  "exclusion_loop schedules [] results = Inr results"
| "exclusion_loop schedules (excluded_idx # rest) results =
     (let excluded_schedule = schedules ! excluded_idx in
      case user_id excluded_schedule of
        None \<Rightarrow> Inl (KeyError ''user_id'')
      | Some excluded_user_id \<Rightarrow>
          (case username excluded_schedule of
             None \<Rightarrow> Inl (KeyError ''username'')
           | Some excluded_username \<Rightarrow>
               (let excluded_outages = get_outage_intervals (get_outages excluded_schedule);
                    common_periods = fst (find_common_electricity_periods
                                            (other_schedules schedules excluded_idx))
                in exclusion_loop schedules rest
                     (results @ overlap_records excluded_user_id excluded_username
                                  common_periods excluded_outages))))"

definition find_n_minus_one_periods :: "schedule list \<Rightarrow> py_error + exclusion list" where
  "find_n_minus_one_periods schedules =
     (if length schedules < 2 then Inr []
      else exclusion_loop schedules [0..<length schedules] [])"

section \<open>Notions used to state the properties\<close>

text \<open>
  A period \<open>(s, e)\<close> stands for the half-open range of minutes from \<open>s\<close> up to, not
  including, \<open>e\<close>. A minute lies inside a list of periods when one of them holds it.
\<close>

definition minute_in :: "(int \<times> int) list \<Rightarrow> int \<Rightarrow> bool" where
  "minute_in periods m = list_ex (\<lambda>p. fst p \<le> m \<and> m < snd p) periods"

definition valid_outage :: "int \<times> int \<Rightarrow> bool" where
  "valid_outage iv = (0 \<le> fst iv \<and> fst iv < snd iv \<and> snd iv \<le> 1440)"

definition overlap :: "int \<times> int \<Rightarrow> int \<times> int \<Rightarrow> bool" where
  "overlap a b = (fst a < snd b \<and> fst b < snd a)"

fun no_overlap :: "(int \<times> int) list \<Rightarrow> bool" where
  "no_overlap [] = True"
| "no_overlap (x # xs) = (list_all (\<lambda>y. \<not> overlap x y) xs \<and> no_overlap xs)"

text \<open>
  A user's outage list is well formed when, in minutes, each outage has
  \<open>0 \<le> start < end \<le> 1440\<close> and no two outages of the list overlap.
\<close>

definition well_formed_outages :: "outage list \<Rightarrow> bool" where
  "well_formed_outages os =
     (list_all valid_outage (get_outage_intervals os) \<and> no_overlap (get_outage_intervals os))"

definition well_formed_entry :: "schedule \<Rightarrow> bool" where
  "well_formed_entry sch =
     (user_id sch \<noteq> None \<and> username sch \<noteq> None \<and> well_formed_outages (get_outages sch))"

text \<open>The windows left between adjacent outages, by recursion on the list.\<close>

fun gaps :: "(int \<times> int) list \<Rightarrow> (int \<times> int) list" where
  "gaps (a # b # rest) = (if snd a < fst b then [(snd a, fst b)] else []) @ gaps (b # rest)"
| "gaps [a] = []"
| "gaps [] = []"

text \<open>
  A list of outages in which each outage is not empty and ends before the next one
  starts.
\<close>

fun chain :: "(int \<times> int) list \<Rightarrow> bool" where
  "chain (a # b # rest) = (fst a < snd a \<and> snd a \<le> fst b \<and> chain (b # rest))"
| "chain [a] = (fst a < snd a)"
| "chain [] = True"

subsection \<open>The end-to-end scenario\<close>

definition mk_outage :: "real \<Rightarrow> real \<Rightarrow> outage" where
  "mk_outage a b = \<lparr> start_hour = Some a, end_hour = Some b \<rparr>"

definition user_A :: schedule where
  "user_A = \<lparr> user_id = Some 1, username = Some ''A'',
      outages = Some [mk_outage 1.5 5, mk_outage 12 15.5, mk_outage 22.5 24] \<rparr>"

definition user_B :: schedule where
  "user_B = \<lparr> user_id = Some 2, username = Some ''B'',
      outages = Some [mk_outage 0 1.5, mk_outage 8.5 12, mk_outage 19 22.5] \<rparr>"

text \<open>The dictionary that the exclusion analyzer builds for a period and a user.\<close>

definition mk_exclusion :: "int \<Rightarrow> string \<Rightarrow> int \<Rightarrow> int \<Rightarrow> exclusion" where
  "mk_exclusion uid un s e = \<lparr> missing_user_id = uid, missing_username = un,
      start_minute = s, end_minute = e,
      start_hhmm = minutes_to_hhmm s, end_hhmm = minutes_to_hhmm e,
      duration_minutes = e - s \<rparr>"

text \<open>An outage list with a malformed entry, from 04:00 back to 01:00.\<close>

definition malformed_outages :: "outage list" where
  "malformed_outages = [mk_outage 2 3, mk_outage 4 1, mk_outage 5 6]"

section \<open>Double arithmetic\<close>

lemma two_powi_less_iff: "(2::real) powi a < 2 powi b \<longleftrightarrow> a < b"
proof
  assume l: "(2::real) powi a < 2 powi b"
  show "a < b"
  proof (rule ccontr)
    assume "\<not> a < b"
    then have "b \<le> a" by simp
    then have "(2::real) powi b \<le> 2 powi a" by (intro power_int_increasing) simp_all
    with l show False by simp
  qed
next
  assume "a < b"
  then show "(2::real) powi a < 2 powi b" by (intro power_int_strict_increasing) simp_all
qed

lemma exponent_from_le: "exponent_from n e x \<le> e"
proof (induction n arbitrary: e)
  case 0
  show ?case by simp
next
  case (Suc n)
  from Suc [of "e - 1"] show ?case by auto
qed

lemma exponent_from_ge: "e - int n \<le> exponent_from n e x"
proof (induction n arbitrary: e)
  case 0
  show ?case by simp
next
  case (Suc n)
  from Suc [of "e - 1"] show ?case by auto
qed

lemma exponent_from_upper:
  "\<bar>x\<bar> < 2 powi (k + 1) \<Longrightarrow> e - int n \<le> k \<Longrightarrow> exponent_from n e x \<le> k"
proof (induction n arbitrary: e)
  case 0
  then show ?case by simp
next
  case (Suc n)
  show ?case
  proof (cases "2 powi e \<le> \<bar>x\<bar>")
    case True
    with Suc.prems(1) have "(2::real) powi e < 2 powi (k + 1)" by simp
    then have "e < k + 1" by (simp only: two_powi_less_iff)
    with True show ?thesis by simp
  next
    case False
    from Suc.prems(2) have "(e - 1) - int n \<le> k" by simp
    from Suc.IH [OF Suc.prems(1) this] False show ?thesis by simp
  qed
qed

lemma exponent_from_eq:
  "2 powi k \<le> \<bar>x\<bar> \<Longrightarrow> \<bar>x\<bar> < 2 powi (k + 1) \<Longrightarrow> k \<le> e \<Longrightarrow> e - int n \<le> k
     \<Longrightarrow> exponent_from n e x = k"
proof (induction n arbitrary: e)
  case 0
  then show ?case by simp
next
  case (Suc n)
  show ?case
  proof (cases "2 powi e \<le> \<bar>x\<bar>")
    case True
    with Suc.prems(2) have "(2::real) powi e < 2 powi (k + 1)" by simp
    then have "e < k + 1" by (simp only: two_powi_less_iff)
    with True Suc.prems(3) show ?thesis by simp
  next
    case False
    with Suc.prems(1) have "(2::real) powi k < 2 powi e" by simp
    then have "k < e" by (simp only: two_powi_less_iff)
    then have a: "k \<le> e - 1" by simp
    from Suc.prems(4) have b: "(e - 1) - int n \<le> k" by simp
    from Suc.IH [OF Suc.prems(1,2) a b] False show ?thesis by simp
  qed
qed

lemma exponent_from_mono:
  "\<bar>x\<bar> \<le> \<bar>y\<bar> \<Longrightarrow> exponent_from n e x \<le> exponent_from n e y"
proof (induction n arbitrary: e)
  case 0
  show ?case by simp
next
  case (Suc n)
  show ?case
  proof (cases "2 powi e \<le> \<bar>x\<bar>")
    case True
    with Suc.prems have "2 powi e \<le> \<bar>y\<bar>" by simp
    with True show ?thesis by simp
  next
    case False
    show ?thesis
    proof (cases "2 powi e \<le> \<bar>y\<bar>")
      case True
      have "exponent_from n (e - 1) x \<le> e - 1" by (rule exponent_from_le)
      with True False show ?thesis by simp
    next
      case n: False
      with False Suc.IH [OF Suc.prems, of "e - 1"] show ?thesis by simp
    qed
  qed
qed

lemma binade_eq:
  "2 powi k \<le> \<bar>x\<bar> \<Longrightarrow> \<bar>x\<bar> < 2 powi (k + 1) \<Longrightarrow> - 1022 \<le> k \<Longrightarrow> k \<le> 1023 \<Longrightarrow> binade x = k"
  unfolding binade_def by (rule exponent_from_eq) simp_all

lemma binade_upper: "\<bar>x\<bar> < 2 powi (k + 1) \<Longrightarrow> - 1022 \<le> k \<Longrightarrow> binade x \<le> k"
  unfolding binade_def by (rule exponent_from_upper) simp_all

lemma binade_mono: "\<bar>x\<bar> \<le> \<bar>y\<bar> \<Longrightarrow> binade x \<le> binade y"
  unfolding binade_def by (rule exponent_from_mono)

lemma ulp_pos: "0 < ulp x"
  by (simp add: ulp_def)

lemma round_half_even_of_int: "round_half_even (of_int n) = n"
  by (simp add: round_half_even_def)

lemma round_half_even_lower: "of_int n \<le> y \<Longrightarrow> n \<le> round_half_even y"
proof -
  assume "of_int n \<le> y"
  then have "n \<le> \<lfloor>y\<rfloor>" by (simp add: le_floor_iff)
  then show ?thesis by (simp add: round_half_even_def Let_def)
qed

lemma round_half_even_upper: "y \<le> of_int n \<Longrightarrow> round_half_even y \<le> n"
proof (cases "y = of_int n")
  case True
  then show ?thesis by (simp add: round_half_even_of_int)
next
  case False
  assume "y \<le> of_int n"
  with False have "y < of_int n" by simp
  then have "\<lfloor>y\<rfloor> < n" by (simp add: floor_less_iff)
  then show ?thesis by (simp add: round_half_even_def Let_def)
qed

lemma ulp_inverse:
  assumes "binade x \<le> 52"
  shows "\<exists>M::int. 1 / ulp x = of_int M"
proof -
  have "1 / ulp x = 2 powi (52 - binade x)"
    by (simp add: ulp_def power_int_diff)
  also have "\<dots> = 2 ^ nat (52 - binade x)"
    using assms by (simp add: power_int_def)
  also have "\<dots> = of_int (2 ^ nat (52 - binade x))"
    by simp
  finally show ?thesis by blast
qed

lemma round_to_double_exact:
  assumes "x / ulp x = of_int N"
  shows "round_to_double x = x"
proof -
  have "round_to_double x = of_int N * ulp x"
    by (simp add: round_to_double_def assms round_half_even_of_int)
  also have "\<dots> = x / ulp x * ulp x" by (simp add: assms)
  also have "\<dots> = x" using ulp_pos [of x] by simp
  finally show ?thesis .
qed

lemma round_to_double_between:
  assumes "of_int k \<le> x" "x \<le> of_int k'" "binade x \<le> 52"
  shows "of_int k \<le> round_to_double x \<and> round_to_double x \<le> of_int k'"
proof -
  have u: "0 < ulp x" by (rule ulp_pos)
  from ulp_inverse [OF assms(3)] obtain M :: int where M: "1 / ulp x = of_int M" by blast
  then have Mu: "of_int M * ulp x = 1" using u by (simp add: field_simps)
  have scale: "of_int j / ulp x = of_int (j * M)" for j :: int
  proof -
    have "of_int j / ulp x = of_int j * (1 / ulp x)" by simp
    also have "\<dots> = of_int (j * M)" unfolding M by simp
    finally show ?thesis .
  qed
  have unscale: "of_int (j * M) * ulp x = of_int j" for j :: int
    using Mu by (simp add: mult.assoc)
  have "of_int k / ulp x \<le> x / ulp x"
    using assms(1) u by (simp add: divide_right_mono)
  then have "of_int (k * M) \<le> x / ulp x"
    by (simp only: scale)
  then have "k * M \<le> round_half_even (x / ulp x)" by (rule round_half_even_lower)
  then have "(of_int (k * M) :: real) \<le> of_int (round_half_even (x / ulp x))"
    by (simp only: of_int_le_iff)
  then have "of_int (k * M) * ulp x \<le> of_int (round_half_even (x / ulp x)) * ulp x"
    using u by (intro mult_right_mono) simp_all
  then have lo: "of_int k \<le> round_to_double x"
    by (simp only: unscale round_to_double_def)
  have "x / ulp x \<le> of_int k' / ulp x"
    using assms(2) u by (simp add: divide_right_mono)
  then have "x / ulp x \<le> of_int (k' * M)"
    by (simp only: scale)
  then have "round_half_even (x / ulp x) \<le> k' * M" by (rule round_half_even_upper)
  then have "(of_int (round_half_even (x / ulp x)) :: real) \<le> of_int (k' * M)"
    by (simp only: of_int_le_iff)
  then have "of_int (round_half_even (x / ulp x)) * ulp x \<le> of_int (k' * M) * ulp x"
    using u by (intro mult_right_mono) simp_all
  then have hi: "round_to_double x \<le> of_int k'"
    by (simp only: unscale round_to_double_def)
  from lo hi show ?thesis ..
qed

text \<open>The difference of a non-negative double and its integer part is a double.\<close>

lemma fraction_exact:
  assumes "is_double h" "0 \<le> h" "binade h \<le> 52"
  shows "round_to_double (h - of_int \<lfloor>h\<rfloor>) = h - of_int \<lfloor>h\<rfloor>"
proof -
  let ?d = "h - of_int \<lfloor>h\<rfloor>"
  have d: "0 \<le> ?d" "?d \<le> h" using assms(2) by simp_all
  then have "\<bar>?d\<bar> \<le> \<bar>h\<bar>" by simp
  then have b: "binade ?d \<le> binade h" by (rule binade_mono)
  have u: "0 < ulp h" and u': "0 < ulp ?d" by (rule ulp_pos)+
  have "ulp h / ulp ?d = 2 powi (binade h - binade ?d)"
    by (simp add: ulp_def power_int_diff)
  also have "\<dots> = 2 ^ nat (binade h - binade ?d)"
    using b by (simp add: power_int_def)
  also have "\<dots> = of_int (2 ^ nat (binade h - binade ?d))" by simp
  finally obtain K :: int where K: "ulp h / ulp ?d = of_int K" by blast
  from ulp_inverse [OF assms(3)] obtain M :: int where M: "1 / ulp h = of_int M" by blast
  from assms(1) have "of_int (round_half_even (h / ulp h)) * ulp h = h"
    by (simp add: is_double_def round_to_double_def)
  then have N: "h / ulp h = of_int (round_half_even (h / ulp h))"
    using u by (simp add: field_simps)
  have "?d / ulp h = h / ulp h - of_int \<lfloor>h\<rfloor> * (1 / ulp h)"
    by (simp add: diff_divide_distrib)
  also have "\<dots> = of_int (round_half_even (h / ulp h) - \<lfloor>h\<rfloor> * M)"
    using N M by simp
  finally have dN: "?d / ulp h = of_int (round_half_even (h / ulp h) - \<lfloor>h\<rfloor> * M)" .
  have "?d / ulp ?d = (?d / ulp h) * (ulp h / ulp ?d)"
    using u u' by simp
  also have "\<dots> = of_int ((round_half_even (h / ulp h) - \<lfloor>h\<rfloor> * M) * K)"
    unfolding dN K by simp
  finally show ?thesis by (rule round_to_double_exact)
qed

lemma round_to_double_eval:
  assumes "2 powi e \<le> \<bar>x\<bar>" "\<bar>x\<bar> < 2 powi (e + 1)" "- 1022 \<le> e" "e \<le> 1023"
  shows "round_to_double x = of_int (round_half_even (x / 2 powi (e - 52))) * 2 powi (e - 52)"
  using binade_eq [OF assms] by (simp add: round_to_double_def ulp_def)

lemma round_to_double_0: "round_to_double 0 = 0"
  by (simp add: round_to_double_def round_half_even_def)

lemma round_to_double_of_int:
  assumes "\<bar>of_int n :: real\<bar> < 2 powi 53"
  shows "round_to_double (of_int n) = of_int n"
proof -
  from assms have "\<bar>of_int n :: real\<bar> < 2 powi (52 + 1)" by simp
  then have "binade (of_int n) \<le> 52" by (rule binade_upper) simp
  from ulp_inverse [OF this] obtain M :: int where M: "1 / ulp (of_int n) = of_int M" by blast
  have "of_int n / ulp (of_int n) = of_int n * (1 / ulp (of_int n))" by simp
  also have "\<dots> = of_int (n * M)" unfolding M by simp
  finally show ?thesis by (rule round_to_double_exact)
qed

lemma py_int_of_int: "py_int (of_int n) = n"
  by (simp add: py_int_def)

lemma convert_of_int:
  assumes "\<bar>of_int n :: real\<bar> < 2 powi 53"
  shows "convert_hour_to_minutes (of_int n) = n * 60"
  by (simp add: convert_hour_to_minutes_def round_to_double_of_int [OF assms] py_int_of_int
      round_to_double_0 Let_def) (simp add: py_int_def)

lemma convert_0: "convert_hour_to_minutes 0 = 0"
  using convert_of_int [of 0] by simp

lemma convert_1: "convert_hour_to_minutes 1 = 60"
  using convert_of_int [of 1] by simp

lemma convert_numeral:
  "\<bar>numeral n :: real\<bar> < 2 powi 53 \<Longrightarrow> convert_hour_to_minutes (numeral n) = numeral n * 60"
  using convert_of_int [of "numeral n"] by simp

lemma round_to_double_half: "round_to_double (1 / 2) = 1 / 2"
  using round_to_double_eval [of "- 1" "1 / 2"] by (simp add: round_half_even_def)

lemma round_to_double_30: "round_to_double 30 = 30"
  using round_to_double_eval [of 4 30] by (simp add: round_half_even_def)

lemma convert_half:
  assumes "0 \<le> n" "round_to_double (of_int n + 1 / 2) = of_int n + 1 / 2"
  shows "convert_hour_to_minutes (of_int n + 1 / 2) = n * 60 + 30"
proof -
  have f: "\<lfloor>of_int n + 1 / 2 :: real\<rfloor> = n" by (simp add: floor_eq_iff)
  have "py_int (of_int n + 1 / 2) = n" using assms(1) f by (simp add: py_int_def)
  then show ?thesis
    by (simp add: convert_hour_to_minutes_def Let_def assms(2) round_to_double_half
        round_to_double_30) (simp add: py_int_def)
qed

lemma double_halves:
  "round_to_double (3 / 2) = 3 / 2" "round_to_double (17 / 2) = 17 / 2"
  "round_to_double (31 / 2) = 31 / 2" "round_to_double (45 / 2) = 45 / 2"
  using round_to_double_eval [of 0 "3 / 2"] round_to_double_eval [of 3 "17 / 2"]
    round_to_double_eval [of 3 "31 / 2"] round_to_double_eval [of 4 "45 / 2"]
  by (simp_all add: round_half_even_def)

lemma convert_halves:
  "convert_hour_to_minutes (3 / 2) = 90" "convert_hour_to_minutes (17 / 2) = 510"
  "convert_hour_to_minutes (31 / 2) = 930" "convert_hour_to_minutes (45 / 2) = 1350"
  using convert_half [of 1] convert_half [of 8] convert_half [of 15] convert_half [of 22]
  by (simp_all add: double_halves)

lemma convert_steps:
  assumes "round_to_double v = h" "py_int h = a" "round_to_double (h - of_int a) = d"
    and "round_to_double (d * 60) = p" "py_int p = b"
  shows "convert_hour_to_minutes v = a * 60 + b"
  by (simp add: convert_hour_to_minutes_def Let_def assms)

lemma double_1999: "round_to_double 1.999 = 4501347827556811 / 2 ^ 51"
  using round_to_double_eval [of 0 "1.999"] by (simp add: round_half_even_def)

lemma convert_1999: "convert_hour_to_minutes 1.999 = 119"
proof -
  have "convert_hour_to_minutes 1.999 = 1 * 60 + 59"
  proof (rule convert_steps)
    show "round_to_double 1.999 = 4501347827556811 / 2 ^ 51"
      by (rule double_1999)
    show "py_int (4501347827556811 / 2 ^ 51) = 1"
      by (simp add: py_int_def)
    show "round_to_double (4501347827556811 / 2 ^ 51 - of_int 1) = 2249548013871563 / 2 ^ 51"
      using round_to_double_eval [of "- 1" "4501347827556811 / 2 ^ 51 - of_int 1"]
      by (simp add: round_half_even_def)
    show "round_to_double (2249548013871563 / 2 ^ 51 * 60) = 8435805052018361 / 2 ^ 47"
      using round_to_double_eval [of 5 "2249548013871563 / 2 ^ 51 * 60"]
      by (simp add: round_half_even_def)
    show "py_int (8435805052018361 / 2 ^ 47) = 59"
      by (simp add: py_int_def)
  qed
  then show ?thesis by simp
qed

lemma double_sixtieth: "round_to_double (1 / 60) = 4803839602528529 / 2 ^ 58"
  using round_to_double_eval [of "- 6" "1 / 60"] by (simp add: round_half_even_def)

lemma is_double_sixtieth: "is_double (4803839602528529 / 2 ^ 58)"
  using round_to_double_eval [of "- 6" "4803839602528529 / 2 ^ 58"]
  by (simp add: is_double_def round_half_even_def)

lemma convert_sixtieth: "convert_hour_to_minutes (4803839602528529 / 2 ^ 58) = 1"
proof -
  have "convert_hour_to_minutes (4803839602528529 / 2 ^ 58) = 0 * 60 + 1"
  proof (rule convert_steps)
    show "round_to_double (4803839602528529 / 2 ^ 58) = 4803839602528529 / 2 ^ 58"
      using is_double_sixtieth by (simp add: is_double_def)
    show "py_int (4803839602528529 / 2 ^ 58) = 0"
      by (simp add: py_int_def)
    show "round_to_double (4803839602528529 / 2 ^ 58 - of_int 0) = 4803839602528529 / 2 ^ 58"
      using is_double_sixtieth by (simp add: is_double_def)
    show "round_to_double (4803839602528529 / 2 ^ 58 * 60) = 1"
      using round_to_double_eval [of "- 1" "4803839602528529 / 2 ^ 58 * 60"]
      by (simp add: round_half_even_def)
    show "py_int 1 = 1"
      by (simp add: py_int_def)
  qed
  then show ?thesis by simp
qed

lemma double_035: "round_to_double 0.35 = 3152519739159347 / 2 ^ 53"
  using round_to_double_eval [of "- 2" "0.35"] by (simp add: round_half_even_def)

lemma is_double_035: "is_double (3152519739159347 / 2 ^ 53)"
  using round_to_double_eval [of "- 2" "3152519739159347 / 2 ^ 53"]
  by (simp add: is_double_def round_half_even_def)

lemma convert_035: "convert_hour_to_minutes (3152519739159347 / 2 ^ 53) = 21"
proof -
  have "convert_hour_to_minutes (3152519739159347 / 2 ^ 53) = 0 * 60 + 21"
  proof (rule convert_steps)
    show "round_to_double (3152519739159347 / 2 ^ 53) = 3152519739159347 / 2 ^ 53"
      using is_double_035 by (simp add: is_double_def)
    show "py_int (3152519739159347 / 2 ^ 53) = 0"
      by (simp add: py_int_def)
    show "round_to_double (3152519739159347 / 2 ^ 53 - of_int 0) = 3152519739159347 / 2 ^ 53"
      using is_double_035 by (simp add: is_double_def)
    show "round_to_double (3152519739159347 / 2 ^ 53 * 60) = 21"
      using round_to_double_eval [of 4 "3152519739159347 / 2 ^ 53 * 60"]
      by (simp add: round_half_even_def)
    show "py_int 21 = 21"
      by (simp add: py_int_def)
  qed
  then show ?thesis by simp
qed

lemma double_115: "round_to_double 1.15 = 2589569785738035 / 2 ^ 51"
  using round_to_double_eval [of 0 "1.15"] by (simp add: round_half_even_def)

lemma convert_115: "convert_hour_to_minutes 1.15 = 68"
proof -
  have "convert_hour_to_minutes 1.15 = 1 * 60 + 8"
  proof (rule convert_steps)
    show "round_to_double 1.15 = 2589569785738035 / 2 ^ 51"
      by (rule double_115)
    show "py_int (2589569785738035 / 2 ^ 51) = 1"
      by (simp add: py_int_def)
    show "round_to_double (2589569785738035 / 2 ^ 51 - of_int 1) = 337769972052787 / 2 ^ 51"
      using round_to_double_eval [of "- 3" "2589569785738035 / 2 ^ 51 - of_int 1"]
      by (simp add: round_half_even_def)
    show "round_to_double (337769972052787 / 2 ^ 51 * 60) = 5066549580791805 / 2 ^ 49"
      using round_to_double_eval [of 3 "337769972052787 / 2 ^ 51 * 60"]
      by (simp add: round_half_even_def)
    show "py_int (5066549580791805 / 2 ^ 49) = 8"
      by (simp add: py_int_def)
  qed
  then show ?thesis by simp
qed

lemma convert_on_day:
  assumes "is_double h" "0 \<le> h" "h \<le> 24"
  shows "convert_hour_to_minutes h = \<lfloor>h\<rfloor> * 60 + \<lfloor>round_to_double ((h - of_int \<lfloor>h\<rfloor>) * 60)\<rfloor>"
    and "\<lfloor>(h - of_int \<lfloor>h\<rfloor>) * 60\<rfloor> \<le> \<lfloor>round_to_double ((h - of_int \<lfloor>h\<rfloor>) * 60)\<rfloor>"
    and "\<lfloor>round_to_double ((h - of_int \<lfloor>h\<rfloor>) * 60)\<rfloor> \<le> \<lfloor>(h - of_int \<lfloor>h\<rfloor>) * 60\<rfloor> + 1"
proof -
  let ?x = "(h - of_int \<lfloor>h\<rfloor>) * 60"
  let ?k = "\<lfloor>?x\<rfloor>"
  from assms(2,3) have "\<bar>h\<bar> < 2 powi (4 + 1)" by simp
  then have "binade h \<le> 4" by (rule binade_upper) simp
  then have bh: "binade h \<le> 52" by simp
  have frac: "round_to_double (h - of_int \<lfloor>h\<rfloor>) = h - of_int \<lfloor>h\<rfloor>"
    using assms(1,2) bh by (rule fraction_exact)
  have x0: "0 \<le> ?x" by simp
  have "h - of_int \<lfloor>h\<rfloor> < 1" by linarith
  then have x60: "?x < 60" by simp
  from x0 x60 have "\<bar>?x\<bar> < 2 powi (5 + 1)" by simp
  then have "binade ?x \<le> 5" by (rule binade_upper) simp
  then have bx: "binade ?x \<le> 52" by simp
  have lo: "of_int ?k \<le> ?x" by (rule of_int_floor_le)
  have hi: "?x \<le> of_int (?k + 1)" by linarith
  from round_to_double_between [OF lo hi bx] have
    r1: "of_int ?k \<le> round_to_double ?x" and r2: "round_to_double ?x \<le> of_int (?k + 1)"
    by simp_all
  from x0 have "0 \<le> ?k" by simp
  with r1 have r0: "0 \<le> round_to_double ?x" by linarith
  from r1 show f1: "?k \<le> \<lfloor>round_to_double ?x\<rfloor>" by (simp add: le_floor_iff)
  from r2 show f2: "\<lfloor>round_to_double ?x\<rfloor> \<le> ?k + 1"
    using floor_mono [OF r2] by simp
  from assms(2) have "py_int h = \<lfloor>h\<rfloor>" by (simp add: py_int_def)
  moreover from r0 have "py_int (round_to_double ?x) = \<lfloor>round_to_double ?x\<rfloor>"
    by (simp add: py_int_def)
  ultimately show "convert_hour_to_minutes h = \<lfloor>h\<rfloor> * 60 + \<lfloor>round_to_double ?x\<rfloor>"
    using assms(1) by (simp add: convert_hour_to_minutes_def Let_def frac is_double_def)
qed

section \<open>Evaluation of the scenario\<close>

lemma convert_scenario_hours:
  "convert_hour_to_minutes (3 / 2) = 90" "convert_hour_to_minutes 5 = 300"
  "convert_hour_to_minutes 12 = 720" "convert_hour_to_minutes (31 / 2) = 930"
  "convert_hour_to_minutes (45 / 2) = 1350" "convert_hour_to_minutes 24 = 1440"
  "convert_hour_to_minutes 0 = 0" "convert_hour_to_minutes (17 / 2) = 510"
  "convert_hour_to_minutes 19 = 1140"
  by (simp_all add: convert_halves convert_numeral convert_0)

lemma outage_intervals_A:
  "get_outage_intervals (get_outages user_A) = [(90, 300), (720, 930), (1350, 1440)]"
  by (simp add: get_outage_intervals_def get_outages_def user_A_def mk_outage_def
      get_start_hour_def get_end_hour_def convert_scenario_hours less_eq_prod_def)

lemma outage_intervals_B:
  "get_outage_intervals (get_outages user_B) = [(0, 90), (510, 720), (1140, 1350)]"
  by (simp add: get_outage_intervals_def get_outages_def user_B_def mk_outage_def
      get_start_hour_def get_end_hour_def convert_scenario_hours less_eq_prod_def)

lemma upt_2: "[0..<2] = [0, Suc 0]"
  by (simp add: upt_rec)

lemma upt_8: "[0..<8] = [0, 1, 2, 3, 4, 5, 6, 7]"
  by (simp add: upt_rec)

lemma electricity_periods_A:
  "get_electricity_periods (get_outages user_A) = [(0, 90), (300, 720), (930, 1350)]"
  by (simp add: get_electricity_periods_def outage_intervals_A between_outages_def upt_2)

lemma electricity_periods_B:
  "get_electricity_periods (get_outages user_B) = [(90, 510), (720, 1140), (1350, 1440)]"
  by (simp add: get_electricity_periods_def outage_intervals_B between_outages_def upt_2)

lemma collect_points_AB:
  "collect_points [user_A, user_B] = set [0, 90, 300, 510, 720, 930, 1140, 1350, 1440]"
  by (simp add: collect_points_def electricity_periods_A electricity_periods_B insert_commute)

lemma all_points_AB:
  "sorted_list_of_set (collect_points [user_A, user_B])
     = [0, 90, 300, 510, 720, 930, 1140, 1350, 1440]"
  unfolding collect_points_AB sorted_list_of_set_sort_remdups by simp

lemma common_periods_AB:
  "find_common_electricity_periods [user_A, user_B] = ([(300, 510), (930, 1140)], [])"
  by (simp add: find_common_electricity_periods_def all_points_AB upt_8 sweep_step_def
      all_have_power_def has_power_def electricity_periods_A electricity_periods_B)

lemma hhmm_scenario:
  "minutes_to_hhmm 0 = ''00:00''" "minutes_to_hhmm 90 = ''01:30''"
  "minutes_to_hhmm 300 = ''05:00''" "minutes_to_hhmm 510 = ''08:30''"
  "minutes_to_hhmm 720 = ''12:00''" "minutes_to_hhmm 930 = ''15:30''"
  "minutes_to_hhmm 1140 = ''19:00''" "minutes_to_hhmm 1350 = ''22:30''"
  "minutes_to_hhmm 1440 = ''24:00''"
  by (simp_all add: minutes_to_hhmm_def fmt_02d_def digit_char_def)

lemma others_AB:
  "other_schedules [user_A, user_B] 0 = [user_B]"
  "other_schedules [user_A, user_B] (Suc 0) = [user_A]"
  by (simp_all add: other_schedules_def)

lemma single_common: "fst (find_common_electricity_periods [u]) = get_electricity_periods (get_outages u)"
  by (simp add: find_common_electricity_periods_def)

lemma records_A:
  "overlap_records 1 ''A'' [(90, 510), (720, 1140), (1350, 1440)] [(90, 300), (720, 930), (1350, 1440)]
   = [mk_exclusion 1 ''A'' 90 300, mk_exclusion 1 ''A'' 720 930, mk_exclusion 1 ''A'' 1350 1440]"
  by (simp add: overlap_records_def mk_exclusion_def)

lemma records_B:
  "overlap_records 2 ''B'' [(0, 90), (300, 720), (930, 1350)] [(0, 90), (510, 720), (1140, 1350)]
   = [mk_exclusion 2 ''B'' 0 90, mk_exclusion 2 ''B'' 510 720, mk_exclusion 2 ''B'' 1140 1350]"
  by (simp add: overlap_records_def mk_exclusion_def)

lemma user_AB_keys:
  "user_id user_A = Some 1" "username user_A = Some ''A''"
  "user_id user_B = Some 2" "username user_B = Some ''B''"
  by (simp_all add: user_A_def user_B_def)

lemma n_minus_one_AB:
  "find_n_minus_one_periods [user_A, user_B] =
     Inr [mk_exclusion 1 ''A'' 90 300, mk_exclusion 1 ''A'' 720 930, mk_exclusion 1 ''A'' 1350 1440,
          mk_exclusion 2 ''B'' 0 90, mk_exclusion 2 ''B'' 510 720, mk_exclusion 2 ''B'' 1140 1350]"
  by (simp add: find_n_minus_one_periods_def upt_2 others_AB single_common user_AB_keys
      outage_intervals_A outage_intervals_B electricity_periods_A electricity_periods_B
      records_A records_B)

lemma wf_AB: "well_formed_entry user_A" "well_formed_entry user_B"
  by (simp_all add: well_formed_entry_def user_AB_keys well_formed_outages_def
      outage_intervals_A outage_intervals_B valid_outage_def overlap_def)

section \<open>The order of the outages\<close>

lemma get_outage_intervals_perm:
  assumes "mset os' = mset os"
  shows "get_outage_intervals os' = get_outage_intervals os"
proof -
  let ?f = "\<lambda>ou. (convert_hour_to_minutes (get_start_hour ou), convert_hour_to_minutes (get_end_hour ou))"
  have "mset (sort (map ?f os)) = mset (map ?f os')"
    using assms by simp
  then have "sort (map ?f os') = sort (map ?f os)"
    by (rule properties_for_sort) simp
  then show ?thesis
    by (simp add: get_outage_intervals_def)
qed

section \<open>The records of the exclusion analyzer\<close>

lemma overlap_records_elem:
  assumes "r \<in> set (overlap_records uid un cps ous)"
  shows "\<exists>c\<in>set cps. \<exists>ou\<in>set ous.
           max (fst c) (fst ou) < min (snd c) (snd ou) \<and>
           r = \<lparr> missing_user_id = uid, missing_username = un,
                 start_minute = max (fst c) (fst ou), end_minute = min (snd c) (snd ou),
                 start_hhmm = minutes_to_hhmm (max (fst c) (fst ou)),
                 end_hhmm = minutes_to_hhmm (min (snd c) (snd ou)),
                 duration_minutes = min (snd c) (snd ou) - max (fst c) (fst ou) \<rparr>"
proof -
  from assms obtain c where c: "c \<in> set cps" and
    r1: "r \<in> set (concat (map (\<lambda>(outage_start, outage_end).
         (let overlap_start = max (fst c) outage_start;
              overlap_end = min (snd c) outage_end
          in if overlap_start < overlap_end then
               [\<lparr> missing_user_id = uid,
                   missing_username = un,
                   start_minute = overlap_start,
                   end_minute = overlap_end,
                   start_hhmm = minutes_to_hhmm overlap_start,
                   end_hhmm = minutes_to_hhmm overlap_end,
                   duration_minutes = overlap_end - overlap_start \<rparr>]
             else [])) ous))"
    unfolding overlap_records_def by (auto simp: case_prod_beta)
  from r1 obtain ou where ou: "ou \<in> set ous" and
    r2: "r \<in> set (let overlap_start = max (fst c) (fst ou);
              overlap_end = min (snd c) (snd ou)
          in if overlap_start < overlap_end then
               [\<lparr> missing_user_id = uid,
                   missing_username = un,
                   start_minute = overlap_start,
                   end_minute = overlap_end,
                   start_hhmm = minutes_to_hhmm overlap_start,
                   end_hhmm = minutes_to_hhmm overlap_end,
                   duration_minutes = overlap_end - overlap_start \<rparr>]
             else [])"
    by (auto simp: case_prod_beta)
  from r2 have "max (fst c) (fst ou) < min (snd c) (snd ou)"
    unfolding Let_def by (simp split: if_splits)
  with r2 c ou show ?thesis
    unfolding Let_def by (intro bexI [of _ c] bexI [of _ ou]) simp_all
qed

lemma exclusion_loop_elem:
  assumes "exclusion_loop schedules idxs acc = Inr results" "r \<in> set results"
  shows "r \<in> set acc \<or>
         (\<exists>e\<in>set idxs. \<exists>uid un. user_id (schedules ! e) = Some uid \<and>
             username (schedules ! e) = Some un \<and>
             r \<in> set (overlap_records uid un
                   (fst (find_common_electricity_periods (other_schedules schedules e)))
                   (get_outage_intervals (get_outages (schedules ! e)))))"
  using assms
proof (induction idxs arbitrary: acc)
  case Nil
  then show ?case by simp
next
  case (Cons e idxs)
  from Cons.prems(1) obtain uid un where
    uid: "user_id (schedules ! e) = Some uid" and un: "username (schedules ! e) = Some un"
    by (auto simp: Let_def split: option.splits)
  let ?new = "overlap_records uid un
                   (fst (find_common_electricity_periods (other_schedules schedules e)))
                   (get_outage_intervals (get_outages (schedules ! e)))"
  from Cons.prems(1) uid un have "exclusion_loop schedules idxs (acc @ ?new) = Inr results"
    by (simp add: Let_def)
  from Cons.IH [OF this Cons.prems(2)] uid un show ?case
    by auto
qed

lemma exclusion_loop_total:
  assumes "\<forall>e\<in>set idxs. user_id (schedules ! e) \<noteq> None \<and> username (schedules ! e) \<noteq> None"
  shows "\<exists>results. exclusion_loop schedules idxs acc = Inr results"
  using assms
  by (induction idxs arbitrary: acc) (auto simp: Let_def split: option.splits)

lemma overlap_records_inside:
  assumes "r \<in> set (overlap_records uid un cps ous)"
  shows "missing_user_id r = uid \<and> missing_username r = un"
    and "start_minute r < end_minute r"
    and "\<exists>ou\<in>set ous. fst ou \<le> start_minute r \<and> end_minute r \<le> snd ou"
    and "\<exists>w\<in>set cps. fst w \<le> start_minute r \<and> end_minute r \<le> snd w"
proof -
  from overlap_records_elem [OF assms] obtain c ou where
    c: "c \<in> set cps" and ou: "ou \<in> set ous" and
    lt: "max (fst c) (fst ou) < min (snd c) (snd ou)" and
    r: "r = \<lparr> missing_user_id = uid, missing_username = un,
                 start_minute = max (fst c) (fst ou), end_minute = min (snd c) (snd ou),
                 start_hhmm = minutes_to_hhmm (max (fst c) (fst ou)),
                 end_hhmm = minutes_to_hhmm (min (snd c) (snd ou)),
                 duration_minutes = min (snd c) (snd ou) - max (fst c) (fst ou) \<rparr>"
    by blast
  have s: "start_minute r = max (fst c) (fst ou)" and e: "end_minute r = min (snd c) (snd ou)"
    by (simp_all add: r)
  show "missing_user_id r = uid \<and> missing_username r = un" by (simp add: r)
  show "start_minute r < end_minute r" using lt s e by simp
  have "fst ou \<le> start_minute r \<and> end_minute r \<le> snd ou" using s e by simp
  with ou show "\<exists>ou\<in>set ous. fst ou \<le> start_minute r \<and> end_minute r \<le> snd ou" ..
  have "fst c \<le> start_minute r \<and> end_minute r \<le> snd c" using s e by simp
  with c show "\<exists>w\<in>set cps. fst w \<le> start_minute r \<and> end_minute r \<le> snd w" ..
qed

lemma exclusion_loop_inside:
  assumes loop: "exclusion_loop schedules [0..<length schedules] [] = Inr results"
    and r: "r \<in> set results"
  shows "\<exists>e<length schedules.
               user_id (schedules ! e) = Some (missing_user_id r) \<and>
               username (schedules ! e) = Some (missing_username r) \<and>
               start_minute r < end_minute r \<and>
               (\<exists>ou\<in>set (get_outage_intervals (get_outages (schedules ! e))).
                   fst ou \<le> start_minute r \<and> end_minute r \<le> snd ou) \<and>
               (\<exists>w\<in>set (fst (find_common_electricity_periods (other_schedules schedules e))).
                   fst w \<le> start_minute r \<and> end_minute r \<le> snd w)"
proof -
  from exclusion_loop_elem [OF loop r] obtain e uid un where
    e: "e \<in> set [0..<length schedules]" and uid: "user_id (schedules ! e) = Some uid" and
    un: "username (schedules ! e) = Some un" and
    mem: "r \<in> set (overlap_records uid un
                 (fst (find_common_electricity_periods (other_schedules schedules e)))
                 (get_outage_intervals (get_outages (schedules ! e))))"
    by auto
  from e have "e < length schedules" by simp
  moreover from uid overlap_records_inside(1) [OF mem]
  have "user_id (schedules ! e) = Some (missing_user_id r)" by simp
  moreover from un overlap_records_inside(1) [OF mem]
  have "username (schedules ! e) = Some (missing_username r)" by simp
  ultimately show ?thesis
    using overlap_records_inside(2-4) [OF mem] by (intro exI [of _ e] conjI)
qed

section \<open>The windows of one user\<close>

lemma upt_Suc_shift: "[0..<Suc n] = 0 # map Suc [0..<n]"
  by (simp add: upt_conv_Cons map_Suc_upt del: upt_Suc)

lemma between_outages_Cons:
  "between_outages (a # b # rest) =
     (if snd a < fst b then [(snd a, fst b)] else []) @ between_outages (b # rest)"
proof -
  have "between_outages (a # b # rest) =
      concat (map (\<lambda>i. let gap_start = snd ((a # b # rest) ! i);
                            gap_end = fst ((a # b # rest) ! (i + 1))
                        in if gap_start < gap_end then [(gap_start, gap_end)] else [])
                 (0 # map Suc [0..<length rest]))"
    unfolding between_outages_def using upt_Suc_shift [of "length rest"] by simp
  also have "\<dots> = (if snd a < fst b then [(snd a, fst b)] else []) @ between_outages (b # rest)"
    by (simp add: between_outages_def Let_def comp_def cong: if_cong)
  finally show ?thesis .
qed

lemma between_outages_gaps: "between_outages xs = gaps xs"
proof (induction xs rule: gaps.induct)
  case (1 a b rest)
  then show ?case by (simp only: between_outages_Cons gaps.simps)
next
  case (2 a)
  show ?case by (simp add: between_outages_def)
next
  case 3
  show ?case by (simp add: between_outages_def)
qed

lemma minute_in_Nil [simp]: "minute_in [] m = False"
  by (simp add: minute_in_def)

lemma minute_in_Cons [simp]:
  "minute_in (p # ps) m = (fst p \<le> m \<and> m < snd p \<or> minute_in ps m)"
  by (simp add: minute_in_def)

lemma minute_in_append [simp]:
  "minute_in (ps @ qs) m = (minute_in ps m \<or> minute_in qs m)"
  by (induction ps) auto

lemma minute_in_iff: "minute_in ps m = (\<exists>p\<in>set ps. fst p \<le> m \<and> m < snd p)"
  by (simp add: minute_in_def list_ex_iff)

lemma chain_ends: "chain xs \<Longrightarrow> xs \<noteq> [] \<Longrightarrow> fst (hd xs) < snd (last xs)"
  by (induction xs rule: chain.induct) auto

lemma chain_partition:
  "chain xs \<Longrightarrow> xs \<noteq> [] \<Longrightarrow>
     ((minute_in xs m \<or> minute_in (gaps xs) m) = (fst (hd xs) \<le> m \<and> m < snd (last xs)))
     \<and> \<not> (minute_in xs m \<and> minute_in (gaps xs) m)"
proof (induction xs rule: chain.induct)
  case (1 a b rest)
  from "1.prems" have c: "chain (b # rest)" and ab: "fst a < snd a" "snd a \<le> fst b"
    by simp_all
  from "1.IH" [OF c] have
    ih1: "(minute_in (b # rest) m \<or> minute_in (gaps (b # rest)) m)
      = (fst b \<le> m \<and> m < snd (last (b # rest)))" and
    ih2: "\<not> (minute_in (b # rest) m \<and> minute_in (gaps (b # rest)) m)"
    by simp_all
  have e: "fst b < snd (last (b # rest))"
    using chain_ends [OF c] by simp
  have l: "last (a # b # rest) = last (b # rest)" by simp
  have u: "(minute_in (a # b # rest) m \<or> minute_in (gaps (a # b # rest)) m)
      = (fst a \<le> m \<and> m < snd (last (b # rest)))"
    using ih1 ab e by (cases "snd a < fst b") auto
  have d: "\<not> (minute_in (a # b # rest) m \<and> minute_in (gaps (a # b # rest)) m)"
    using ih1 ih2 ab e by (cases "snd a < fst b") auto
  from u d show ?case unfolding l by simp
next
  case (2 a)
  show ?case by simp
next
  case 3
  then show ?case by simp
qed

lemma sorted_wf_chain:
  "sorted xs \<Longrightarrow> list_all valid_outage xs \<Longrightarrow> no_overlap xs \<Longrightarrow> chain xs"
proof (induction xs rule: chain.induct)
  case (1 a b rest)
  from "1.prems" have "a \<le> b" by simp
  then have "fst a \<le> fst b" by (auto simp: less_eq_prod_def)
  moreover from "1.prems" have "fst a < snd a" "fst b < snd b" "\<not> overlap a b"
    by (simp_all add: valid_outage_def)
  ultimately have "fst a < snd a \<and> snd a \<le> fst b"
    by (auto simp: overlap_def)
  moreover from "1.prems" have "chain (b # rest)"
    by (intro "1.IH") simp_all
  ultimately show ?case by simp
next
  case (2 a)
  then show ?case by (simp add: valid_outage_def)
next
  case 3
  show ?case by simp
qed

lemma valid_bounds:
  assumes "list_all valid_outage xs" "xs \<noteq> []"
  shows "0 \<le> fst (hd xs)" "snd (last xs) \<le> 1440"
proof -
  from assms have "hd xs \<in> set xs" "last xs \<in> set xs" by simp_all
  with assms(1) have "valid_outage (hd xs)" "valid_outage (last xs)"
    by (simp_all add: list_all_iff)
  then show "0 \<le> fst (hd xs)" "snd (last xs) \<le> 1440"
    by (simp_all add: valid_outage_def)
qed

lemma electricity_periods_unfold:
  "get_electricity_periods os =
     (if get_outage_intervals os = [] then [(0, 1440)]
      else (if 0 < fst (hd (get_outage_intervals os))
            then [(0, fst (hd (get_outage_intervals os)))] else [])
           @ gaps (get_outage_intervals os)
           @ (if snd (last (get_outage_intervals os)) < 1440
              then [(snd (last (get_outage_intervals os)), 1440)] else []))"
  by (simp add: get_electricity_periods_def Let_def between_outages_gaps hd_conv_nth)

lemma sorted_outage_intervals: "sorted (get_outage_intervals os)"
  by (simp add: get_outage_intervals_def)

lemma gaps_nonempty: "w \<in> set (gaps xs) \<Longrightarrow> fst w < snd w"
  by (induction xs rule: gaps.induct) (auto split: if_splits)

lemma gaps_bounds:
  assumes "sorted (map fst xs)" "\<forall>x\<in>set xs. fst x \<le> snd x" "w \<in> set (gaps xs)"
  shows "fst (hd xs) \<le> fst w \<and> snd w \<le> fst (last xs)"
  using assms
proof (induction xs rule: gaps.induct)
  case (1 a b rest)
  from "1.prems" have s: "sorted (map fst (b # rest))" and v: "\<forall>x\<in>set (b # rest). fst x \<le> snd x"
    and ab: "fst a \<le> fst b" "fst a \<le> snd a"
    by simp_all
  have bl: "fst b \<le> fst (last (b # rest))"
  proof -
    have "last (b # rest) \<in> set (b # rest)" by (rule last_in_set) simp
    with "1.prems"(1) show ?thesis by auto
  qed
  from "1.prems"(3) consider "snd a < fst b" "w = (snd a, fst b)" | "w \<in> set (gaps (b # rest))"
    by (auto split: if_splits)
  then show ?case
  proof cases
    case 1
    with ab bl show ?thesis by simp
  next
    case 2
    from "1.IH" [OF s v 2] ab show ?thesis by simp
  qed
next
  case (2 a)
  then show ?case by simp
next
  case 3
  then show ?case by simp
qed

lemma gaps_separated:
  assumes "sorted (map fst xs)" "\<forall>x\<in>set xs. fst x \<le> snd x"
  shows "sorted_wrt (\<lambda>a b. snd a \<le> fst b) (gaps xs)"
  using assms
proof (induction xs rule: gaps.induct)
  case (1 a b rest)
  from "1.prems" have s: "sorted (map fst (b # rest))" and v: "\<forall>x\<in>set (b # rest). fst x \<le> snd x"
    by simp_all
  have "fst b \<le> fst w" if "w \<in> set (gaps (b # rest))" for w
    using gaps_bounds [OF s v that] by simp
  with "1.IH" [OF s v] show ?case
    by (simp add: sorted_wrt_append)
next
  case (2 a)
  show ?case by simp
next
  case 3
  show ?case by simp
qed

lemma separated_no_overlap:
  "sorted_wrt (\<lambda>a b. snd a \<le> fst b) ws \<Longrightarrow> no_overlap ws"
  by (induction ws) (auto simp: list_all_iff overlap_def)

lemma separated_sorted_starts:
  assumes "sorted_wrt (\<lambda>a b. snd a \<le> fst b) ws" "\<forall>w\<in>set ws. fst w < snd w"
  shows "sorted (map fst ws)"
  using assms by (induction ws) force+

lemma electricity_periods_nonempty:
  "w \<in> set (get_electricity_periods os) \<Longrightarrow> fst w < snd w"
  unfolding electricity_periods_unfold
  by (auto split: if_splits dest: gaps_nonempty)

lemma electricity_periods_separated:
  assumes "\<forall>iv\<in>set (get_outage_intervals os). fst iv \<le> snd iv"
  shows "sorted_wrt (\<lambda>a b. snd a \<le> fst b) (get_electricity_periods os)"
proof (cases "get_outage_intervals os = []")
  case True
  then show ?thesis by (simp add: electricity_periods_unfold)
next
  case False
  let ?oi = "get_outage_intervals os"
  have s: "sorted (map fst ?oi)"
  proof -
    have "sorted_wrt (\<le>) ?oi" using sorted_outage_intervals [of os] by simp
    then have "sorted_wrt (\<lambda>a b. fst a \<le> fst b) ?oi"
      by (rule sorted_wrt_mono_rel [rotated]) (auto simp: less_eq_prod_def)
    then show ?thesis by (simp add: sorted_map)
  qed
  have g: "sorted_wrt (\<lambda>a b. snd a \<le> fst b) (gaps ?oi)"
    using s assms by (rule gaps_separated)
  have b: "fst (hd ?oi) \<le> fst w \<and> snd w \<le> fst (last ?oi)" if "w \<in> set (gaps ?oi)" for w
    using s assms that by (rule gaps_bounds)
  have l: "fst (last ?oi) \<le> snd (last ?oi)"
    using assms False by simp
  have hl: "fst (hd ?oi) \<le> fst (last ?oi)"
  proof -
    have "last ?oi \<in> set ?oi" using False by simp
    then have "fst (last ?oi) \<in> set (map fst ?oi)" by simp
    moreover have "map fst ?oi = fst (hd ?oi) # map fst (tl ?oi)"
      using False by (cases ?oi) simp_all
    ultimately show ?thesis using s by (metis order_refl set_ConsD sorted_simps(2))
  qed
  show ?thesis
    unfolding electricity_periods_unfold using False g b l hl
    by (auto simp: sorted_wrt_append dest!: b)
qed

lemma outage_intervals_malformed:
  "get_outage_intervals malformed_outages = [(120, 180), (240, 60), (300, 360)]"
  by (simp add: get_outage_intervals_def malformed_outages_def mk_outage_def
      get_start_hour_def get_end_hour_def convert_numeral convert_1 less_eq_prod_def)

lemma electricity_periods_malformed:
  "get_electricity_periods malformed_outages = [(0, 120), (180, 240), (60, 300), (360, 1440)]"
  by (simp add: get_electricity_periods_def outage_intervals_malformed between_outages_def upt_2)

section \<open>The sweep of the intersection engine\<close>

lemma has_power_minute_in: "has_power ws m = minute_in ws m"
  by (simp add: has_power_def minute_in_def list_ex_iff case_prod_beta)

lemma all_have_power_iff:
  "all_have_power schedules m =
     (\<forall>sch\<in>set schedules. minute_in (get_electricity_periods (get_outages sch)) m)"
  by (simp add: all_have_power_def list_all_iff has_power_minute_in)

lemma fold_insert_ends:
  "fold (\<lambda>(s, e) pts'. insert e (insert s pts')) ws pts = pts \<union> fst ` set ws \<union> snd ` set ws"
  by (induction ws arbitrary: pts) auto

lemma fold_collect:
  "fold (\<lambda>sch pts. fold (\<lambda>(s, e) pts'. insert e (insert s pts'))
                          (get_electricity_periods (get_outages sch)) pts) schedules pts0
   = pts0 \<union> (\<Union>sch\<in>set schedules. fst ` set (get_electricity_periods (get_outages sch))
                                      \<union> snd ` set (get_electricity_periods (get_outages sch)))"
  by (induction schedules arbitrary: pts0) (auto simp: fold_insert_ends)

lemma collect_points_eq:
  "collect_points schedules =
     {0, 1440} \<union> (\<Union>sch\<in>set schedules. fst ` set (get_electricity_periods (get_outages sch))
                                      \<union> snd ` set (get_electricity_periods (get_outages sch)))"
  unfolding collect_points_def fold_collect by simp

lemma finite_collect_points: "finite (collect_points schedules)"
  unfolding collect_points_eq by simp

lemma window_ends_collected:
  assumes "sch \<in> set schedules" "w \<in> set (get_electricity_periods (get_outages sch))"
  shows "fst w \<in> collect_points schedules" "snd w \<in> collect_points schedules"
  using assms unfolding collect_points_eq by auto

text \<open>Between two adjacent points of a strictly increasing list there is no other point.\<close>

lemma no_point_between:
  assumes "sorted_wrt (<) (ap :: int list)" "Suc i < length ap" "x \<in> set ap"
  shows "x \<le> ap ! i \<or> ap ! Suc i \<le> x"
proof -
  from assms(3) obtain j where j: "j < length ap" "x = ap ! j"
    by (auto simp: in_set_conv_nth)
  have s: "sorted ap" using assms(1) by (rule strict_sorted_imp_sorted)
  show ?thesis
  proof (cases "j \<le> i")
    case True
    with s assms(2) have "ap ! j \<le> ap ! i" by (intro sorted_nth_mono) simp_all
    with j show ?thesis by simp
  next
    case False
    then have "Suc i \<le> j" by simp
    with s j(1) have "ap ! Suc i \<le> ap ! j" by (intro sorted_nth_mono) simp_all
    with j show ?thesis by simp
  qed
qed

lemma minute_in_sample:
  assumes "sorted_wrt (<) ap" "Suc i < length ap" "ap ! i \<le> m" "m < ap ! Suc i"
    and "\<forall>w\<in>set ws. fst w \<in> set ap \<and> snd w \<in> set ap"
  shows "minute_in ws m = minute_in ws (ap ! i)"
proof -
  have "(fst w \<le> m \<and> m < snd w) = (fst w \<le> ap ! i \<and> ap ! i < snd w)" if "w \<in> set ws" for w
  proof -
    from that assms(5) have "fst w \<in> set ap" "snd w \<in> set ap" by simp_all
    from no_point_between [OF assms(1,2) this(1)] no_point_between [OF assms(1,2) this(2)]
    show ?thesis using assms(3,4) by auto
  qed
  then show ?thesis by (auto simp: minute_in_iff)
qed

lemma sub_interval_exists:
  "sorted_wrt (<) (ap :: int list) \<Longrightarrow> ap \<noteq> [] \<Longrightarrow> hd ap \<le> m \<Longrightarrow> m < last ap \<Longrightarrow>
     \<exists>i. Suc i < length ap \<and> ap ! i \<le> m \<and> m < ap ! Suc i"
proof (induction ap)
  case Nil
  then show ?case by simp
next
  case (Cons a rest)
  show ?case
  proof (cases rest)
    case Nil
    with Cons.prems show ?thesis by simp
  next
    case (Cons b r)
    show ?thesis
    proof (cases "m < b")
      case True
      with Cons.prems Cons have "Suc 0 < length (a # rest) \<and> (a # rest) ! 0 \<le> m \<and> m < (a # rest) ! Suc 0"
        by simp
      then show ?thesis by blast
    next
      case False
      with Cons.prems Cons.IH Cons obtain i where
        "Suc i < length rest \<and> rest ! i \<le> m \<and> m < rest ! Suc i"
        by auto
      then have "Suc (Suc i) < length (a # rest) \<and> (a # rest) ! Suc i \<le> m \<and> m < (a # rest) ! Suc (Suc i)"
        by simp
      then show ?thesis by blast
    qed
  qed
qed

lemma update_last: "cp \<noteq> [] \<Longrightarrow> cp[length cp - Suc 0 := x] = butlast cp @ [x]"
  by (cases cp rule: rev_cases) simp_all

lemma sweep_step_unfold:
  "sweep_step schedules ap k cp =
     (if all_have_power schedules (ap ! k) then
        (if cp \<noteq> [] \<and> snd (last cp) = ap ! k
         then butlast cp @ [(fst (last cp), ap ! Suc k)]
         else cp @ [(ap ! k, ap ! Suc k)])
      else cp)"
  by (simp add: sweep_step_def Let_def update_last)

lemma sweep_step_minutes:
  assumes "\<forall>w\<in>set cp. fst w < snd w" "ap ! k < ap ! Suc k"
  shows "minute_in (sweep_step schedules ap k cp) m =
           (minute_in cp m \<or> all_have_power schedules (ap ! k) \<and> ap ! k \<le> m \<and> m < ap ! Suc k)"
proof (cases cp rule: rev_cases)
  case Nil
  then show ?thesis by (simp add: sweep_step_unfold)
next
  case (snoc ys y)
  with assms(1) have "fst y < snd y" by simp
  with snoc assms(2) show ?thesis
    by (auto simp: sweep_step_unfold)
qed

lemma sweep_step_separated:
  assumes "sorted_wrt (\<lambda>a b. snd a < fst b) cp"
    and "\<forall>w\<in>set cp. fst w < snd w \<and> snd w \<le> ap ! k"
    and "ap ! k < ap ! Suc k"
  shows "sorted_wrt (\<lambda>a b. snd a < fst b) (sweep_step schedules ap k cp)"
    and "\<forall>w\<in>set (sweep_step schedules ap k cp). fst w < snd w \<and> snd w \<le> ap ! Suc k"
proof -
  have "sorted_wrt (\<lambda>a b. snd a < fst b) (sweep_step schedules ap k cp) \<and>
        (\<forall>w\<in>set (sweep_step schedules ap k cp). fst w < snd w \<and> snd w \<le> ap ! Suc k)"
  proof (cases cp rule: rev_cases)
    case Nil
    with assms(3) show ?thesis by (simp add: sweep_step_unfold)
  next
    case (snoc ys y)
    from assms(1) snoc have ys: "sorted_wrt (\<lambda>a b. snd a < fst b) ys"
      and yy: "\<forall>x\<in>set ys. snd x < fst y"
      by (simp_all add: sorted_wrt_append)
    from assms(2) snoc have y: "fst y < snd y" "snd y \<le> ap ! k"
      and el: "\<forall>w\<in>set ys. fst w < snd w \<and> snd w \<le> ap ! k"
      by simp_all
    have lt: "\<forall>x\<in>set ys. snd x < ap ! k"
      using yy y by fastforce
    have le: "\<forall>w\<in>set ys. fst w < snd w \<and> snd w \<le> ap ! Suc k"
      using el assms(3) by fastforce
    show ?thesis
    proof (cases "all_have_power schedules (ap ! k)")
      case False
      with assms snoc ys yy y le show ?thesis
        by (simp add: sweep_step_unfold sorted_wrt_append)
    next
      case good: True
      show ?thesis
      proof (cases "snd y = ap ! k")
        case True
        with good snoc ys yy y le assms(3) show ?thesis
          by (simp add: sweep_step_unfold sorted_wrt_append)
      next
        case False
        with y have "snd y < ap ! k" by simp
        with False good snoc ys yy y le lt assms(3) show ?thesis
          by (simp add: sweep_step_unfold sorted_wrt_append)
      qed
    qed
  qed
  then show "sorted_wrt (\<lambda>a b. snd a < fst b) (sweep_step schedules ap k cp)"
    and "\<forall>w\<in>set (sweep_step schedules ap k cp). fst w < snd w \<and> snd w \<le> ap ! Suc k"
    by simp_all
qed

lemma sweep_invariant:
  assumes "sorted_wrt (<) (ap :: int list)"
  shows "k < length ap \<Longrightarrow>
     (\<forall>m. minute_in (fold (sweep_step schedules ap) [0..<k] []) m =
           (\<exists>i<k. all_have_power schedules (ap ! i) \<and> ap ! i \<le> m \<and> m < ap ! Suc i))
     \<and> sorted_wrt (\<lambda>a b. snd a < fst b) (fold (sweep_step schedules ap) [0..<k] [])
     \<and> (\<forall>w\<in>set (fold (sweep_step schedules ap) [0..<k] []). fst w < snd w \<and> snd w \<le> ap ! k)"
proof (induction k)
  case 0
  show ?case by simp
next
  case (Suc k)
  let ?cp = "fold (sweep_step schedules ap) [0..<k] []"
  from Suc.prems have k: "k < length ap" by simp
  from Suc.IH [OF k] have
    m: "\<And>m. minute_in ?cp m =
           (\<exists>i<k. all_have_power schedules (ap ! i) \<and> ap ! i \<le> m \<and> m < ap ! Suc i)" and
    s: "sorted_wrt (\<lambda>a b. snd a < fst b) ?cp" and
    e: "\<forall>w\<in>set ?cp. fst w < snd w \<and> snd w \<le> ap ! k"
    by simp_all
  have lt: "ap ! k < ap ! Suc k"
    using sorted_wrt_nth_less [OF assms, of k "Suc k"] Suc.prems by simp
  have step: "fold (sweep_step schedules ap) [0..<Suc k] [] = sweep_step schedules ap k ?cp"
    by simp
  from e have ne: "\<forall>w\<in>set ?cp. fst w < snd w" by simp
  have "minute_in (sweep_step schedules ap k ?cp) m =
           (\<exists>i<Suc k. all_have_power schedules (ap ! i) \<and> ap ! i \<le> m \<and> m < ap ! Suc i)" for m
    unfolding sweep_step_minutes [OF ne lt] m less_Suc_eq by blast
  with sweep_step_separated [OF s e lt] show ?case
    unfolding step by simp
qed

lemma common_periods_sweep:
  assumes "2 \<le> length schedules"
  shows "fst (find_common_electricity_periods schedules) =
           fold (sweep_step schedules (sorted_list_of_set (collect_points schedules)))
                [0..<length (sorted_list_of_set (collect_points schedules)) - 1] []"
proof -
  from assms have "schedules \<noteq> []" "length schedules \<noteq> 1" by auto
  then show ?thesis
    by (simp add: find_common_electricity_periods_def Let_def)
qed

lemma common_periods_general:
  assumes "2 \<le> length schedules"
  shows "0 \<le> m \<and> m < 1440 \<longrightarrow>
           minute_in (fst (find_common_electricity_periods schedules)) m
             = all_have_power schedules m"
    and "sorted_wrt (\<lambda>a b. snd a < fst b) (fst (find_common_electricity_periods schedules))"
    and "\<forall>w\<in>set (fst (find_common_electricity_periods schedules)). fst w < snd w"
proof -
  define ap where "ap = sorted_list_of_set (collect_points schedules)"
  let ?k = "length ap - 1"
  let ?cp = "fold (sweep_step schedules ap) [0..<?k] []"
  have fin: "finite (collect_points schedules)" by (rule finite_collect_points)
  have str: "sorted_wrt (<) ap" unfolding ap_def by (rule strict_sorted_list_of_set)
  have set_ap: "set ap = collect_points schedules"
    unfolding ap_def using fin by simp
  have "0 \<in> collect_points schedules" "1440 \<in> collect_points schedules"
    unfolding collect_points_eq by simp_all
  then have in0: "0 \<in> set ap" and in1440: "1440 \<in> set ap"
    using set_ap by simp_all
  then have ne: "ap \<noteq> []" by auto
  then have k: "?k < length ap" by simp
  have srt: "sorted ap" using str by (rule strict_sorted_imp_sorted)
  have hd_le: "hd ap \<le> 0"
  proof -
    from ne have "ap = hd ap # tl ap" by simp
    with srt have "\<forall>x\<in>set ap. hd ap \<le> x"
      by (metis order_refl set_ConsD sorted_simps(2))
    with in0 show ?thesis by blast
  qed
  have le_last: "1440 \<le> last ap"
  proof -
    from in1440 obtain j where j: "j < length ap" "ap ! j = 1440"
      by (auto simp: in_set_conv_nth)
    then have "ap ! j \<le> ap ! (length ap - 1)"
      using srt by (intro sorted_nth_mono) simp_all
    with j ne show ?thesis by (simp add: last_conv_nth)
  qed
  note inv = sweep_invariant [OF str k, of schedules]
  have cp: "fst (find_common_electricity_periods schedules) = ?cp"
    unfolding ap_def using assms by (rule common_periods_sweep)
  from inv have im: "\<And>m. minute_in ?cp m =
      (\<exists>i<?k. all_have_power schedules (ap ! i) \<and> ap ! i \<le> m \<and> m < ap ! Suc i)"
    by simp
  have sample: "all_have_power schedules m = all_have_power schedules (ap ! i)"
    if "Suc i < length ap" "ap ! i \<le> m" "m < ap ! Suc i" for i m
  proof -
    have "minute_in (get_electricity_periods (get_outages sch)) m =
          minute_in (get_electricity_periods (get_outages sch)) (ap ! i)"
      if sch: "sch \<in> set schedules" for sch
    proof (rule minute_in_sample [OF str \<open>Suc i < length ap\<close> \<open>ap ! i \<le> m\<close> \<open>m < ap ! Suc i\<close>])
      show "\<forall>w\<in>set (get_electricity_periods (get_outages sch)).
              fst w \<in> set ap \<and> snd w \<in> set ap"
        unfolding set_ap using window_ends_collected [OF sch] by blast
    qed
    then show ?thesis by (simp add: all_have_power_iff)
  qed
  show "0 \<le> m \<and> m < 1440 \<longrightarrow>
           minute_in (fst (find_common_electricity_periods schedules)) m
             = all_have_power schedules m"
  proof
    assume m: "0 \<le> m \<and> m < 1440"
    with hd_le le_last have "hd ap \<le> m" "m < last ap" by simp_all
    from sub_interval_exists [OF str ne this] obtain i0 where
      i0: "Suc i0 < length ap" "ap ! i0 \<le> m" "m < ap ! Suc i0"
      by blast
    show "minute_in (fst (find_common_electricity_periods schedules)) m
             = all_have_power schedules m"
    proof
      assume "minute_in (fst (find_common_electricity_periods schedules)) m"
      then obtain i where i: "i < ?k" "all_have_power schedules (ap ! i)"
          "ap ! i \<le> m" "m < ap ! Suc i"
        unfolding cp im by blast
      from i(1) have "Suc i < length ap" by simp
      from sample [OF this i(3,4)] i(2) show "all_have_power schedules m" by simp
    next
      assume "all_have_power schedules m"
      with sample [OF i0] have "all_have_power schedules (ap ! i0)" by simp
      moreover from i0(1) have "i0 < ?k" by simp
      ultimately show "minute_in (fst (find_common_electricity_periods schedules)) m"
        unfolding cp im using i0(2,3) by blast
    qed
  qed
  from inv show "sorted_wrt (\<lambda>a b. snd a < fst b) (fst (find_common_electricity_periods schedules))"
    unfolding cp by simp
  from inv show "\<forall>w\<in>set (fst (find_common_electricity_periods schedules)). fst w < snd w"
    unfolding cp by simp
qed

section \<open>Properties\<close>

text \<open>
  C3. The intersection engine applied to no entry returns an empty result, and applied
  to exactly one entry it returns that user's availability windows as
  \<open>get_electricity_periods\<close> computes them. The model has no error value for this
  function: the source reads the entry with \<^verbatim>\<open>get\<close> only, which cannot raise.
\<close>

theorem find_common_degenerate:
  "find_common_electricity_periods [] = ([], []) \<and>
   fst (find_common_electricity_periods [u]) = get_electricity_periods (get_outages u)"
  by (simp add: find_common_electricity_periods_def)

text \<open>
  C5, as stated, fails. The source computes \<^verbatim>\<open>(hour - hours) * 60\<close> in double arithmetic,
  and the rounded product is not the exact one. For the double nearest to 1/60, the
  hour of a slot that starts at minute 1, the product is rounded up to 1 and the
  result is 1, where the formula in exact arithmetic gives 0 on that double. For the
  double nearest to 1.15 the result is 68, where the formula on the decimal 1.15
  gives 69.
\<close>

theorem convert_hour_to_minutes_truncates_counterexample:
  "round_to_double (1 / 60) = 4803839602528529 / 2 ^ 58
   \<and> is_double (4803839602528529 / 2 ^ 58)
   \<and> convert_hour_to_minutes (4803839602528529 / 2 ^ 58) = 1
   \<and> \<lfloor>4803839602528529 / 2 ^ 58 :: real\<rfloor> * 60
       + \<lfloor>(4803839602528529 / 2 ^ 58 - of_int \<lfloor>4803839602528529 / 2 ^ 58 :: real\<rfloor>) * 60 :: real\<rfloor> = 0
   \<and> convert_hour_to_minutes 1.15 = 68
   \<and> \<lfloor>1.15 :: real\<rfloor> * 60 + \<lfloor>(1.15 - of_int \<lfloor>1.15 :: real\<rfloor>) * 60 :: real\<rfloor> = 69"
  using double_sixtieth is_double_sixtieth convert_sixtieth convert_115 by simp

text \<open>
  C5, amended. The conversion truncates the hour part and the minute part on their
  own, the minute part being the double product: for a double \<open>h\<close> between 0 and 24
  the result is \<open>floor h * 60 + floor p\<close>, where \<open>p\<close> is the double nearest to
  \<open>(h - floor h) * 60\<close>; this is the value \<open>floor h * 60 + floor ((h - floor h) * 60)\<close>
  of exact arithmetic or that value plus one. The float 1.999 gives 119 minutes,
  0 hours give 0 minutes and 24 hours give 1440 minutes.
\<close>

theorem convert_hour_to_minutes_truncates:
  "(is_double h \<and> 0 \<le> h \<and> h \<le> 24 \<longrightarrow>
      convert_hour_to_minutes h
        = \<lfloor>h\<rfloor> * 60 + \<lfloor>round_to_double ((h - of_int \<lfloor>h\<rfloor>) * 60)\<rfloor>
      \<and> \<lfloor>h\<rfloor> * 60 + \<lfloor>(h - of_int \<lfloor>h\<rfloor>) * 60\<rfloor> \<le> convert_hour_to_minutes h
      \<and> convert_hour_to_minutes h \<le> \<lfloor>h\<rfloor> * 60 + \<lfloor>(h - of_int \<lfloor>h\<rfloor>) * 60\<rfloor> + 1)
   \<and> convert_hour_to_minutes 1.999 = 119
   \<and> convert_hour_to_minutes 0 = 0
   \<and> convert_hour_to_minutes 24 = 1440"
proof -
  have "convert_hour_to_minutes h
        = \<lfloor>h\<rfloor> * 60 + \<lfloor>round_to_double ((h - of_int \<lfloor>h\<rfloor>) * 60)\<rfloor>
      \<and> \<lfloor>h\<rfloor> * 60 + \<lfloor>(h - of_int \<lfloor>h\<rfloor>) * 60\<rfloor> \<le> convert_hour_to_minutes h
      \<and> convert_hour_to_minutes h \<le> \<lfloor>h\<rfloor> * 60 + \<lfloor>(h - of_int \<lfloor>h\<rfloor>) * 60\<rfloor> + 1"
    if "is_double h \<and> 0 \<le> h \<and> h \<le> 24"
  proof -
    from that have d: "is_double h" and r: "0 \<le> h" "h \<le> 24" by simp_all
    from convert_on_day [OF d r] show ?thesis by simp
  qed
  moreover have "convert_hour_to_minutes 1.999 = 119"
    by (rule convert_1999)
  moreover have "convert_hour_to_minutes 0 = 0"
    by (rule convert_0)
  moreover have "convert_hour_to_minutes 24 = 1440"
    by (simp add: convert_numeral)
  ultimately show ?thesis by blast
qed

theorem convert_hour_to_minutes_truncates_witness:
  "is_double (3152519739159347 / 2 ^ 53)
   \<and> (0::real) \<le> 3152519739159347 / 2 ^ 53 \<and> (3152519739159347 / 2 ^ 53 :: real) \<le> 24
   \<and> convert_hour_to_minutes (3152519739159347 / 2 ^ 53) = 21
   \<and> \<lfloor>3152519739159347 / 2 ^ 53 :: real\<rfloor> * 60
       + \<lfloor>(3152519739159347 / 2 ^ 53 - of_int \<lfloor>3152519739159347 / 2 ^ 53 :: real\<rfloor>) * 60 :: real\<rfloor> = 20"
  using convert_hour_to_minutes_truncates [of "3152519739159347 / 2 ^ 53"]
    is_double_035 convert_035
  by simp

text \<open>
  C6. In the two-user scenario (user A out from 1.5 to 5, 12 to 15.5 and 22.5 to 24
  hours, user B out from 0 to 1.5, 8.5 to 12 and 19 to 22.5 hours) the intersection
  engine returns the periods (300, 510) and (930, 1140), in that order.
\<close>

theorem scenario_common_periods:
  "find_common_electricity_periods
     [\<lparr> user_id = Some 1, username = Some ''A'',
         outages = Some [mk_outage 1.5 5, mk_outage 12 15.5, mk_outage 22.5 24] \<rparr>,
      \<lparr> user_id = Some 2, username = Some ''B'',
         outages = Some [mk_outage 0 1.5, mk_outage 8.5 12, mk_outage 19 22.5] \<rparr>]
   = ([(300, 510), (930, 1140)], [])"
  using common_periods_AB by (simp add: user_A_def user_B_def)

text \<open>
  C9. For every input the second component of the pair returned by
  \<open>find_common_electricity_periods\<close> is the empty list.
\<close>

theorem find_common_second_component_empty:
  "snd (find_common_electricity_periods schedules) = []"
  by (simp add: find_common_electricity_periods_def Let_def)

text \<open>
  C7. The availability deriver does not depend on the order of the outages: two
  outage lists that are permutations of each other (equal as multisets) give the
  same list of windows.
\<close>

theorem electricity_periods_permutation: "mset os' = mset os \<Longrightarrow> get_electricity_periods os' = get_electricity_periods os"
  using get_outage_intervals_perm [of os' os] by (simp add: get_electricity_periods_def)

theorem electricity_periods_permutation_witness:
  "mset [mk_outage 12 15.5, mk_outage 22.5 24, mk_outage 1.5 5]
     = mset [mk_outage 1.5 5, mk_outage 12 15.5, mk_outage 22.5 24] \<and>
   get_electricity_periods [mk_outage 12 15.5, mk_outage 22.5 24, mk_outage 1.5 5]
     = get_electricity_periods [mk_outage 1.5 5, mk_outage 12 15.5, mk_outage 22.5 24]"
  using electricity_periods_permutation
    [of "[mk_outage 12 15.5, mk_outage 22.5 24, mk_outage 1.5 5]"
        "[mk_outage 1.5 5, mk_outage 12 15.5, mk_outage 22.5 24]"]
  by simp

text \<open>
  C4. With fewer than two entries the exclusion analyzer returns the empty list and
  raises nothing. With at least two well-formed entries it returns a list of
  records, and every record carries the id and the name of an entry \<open>e\<close> such that
  the record's interval is not empty, lies within one outage interval of \<open>e\<close> and
  lies within one period that the intersection engine returns for the other entries.
\<close>

theorem exclusion_periods_inside:
  "(length schedules < 2 \<longrightarrow> find_n_minus_one_periods schedules = Inr [])
   \<and> (2 \<le> length schedules \<and> list_all well_formed_entry schedules \<longrightarrow>
        (\<exists>results. find_n_minus_one_periods schedules = Inr results \<and>
           (\<forall>r\<in>set results. \<exists>e<length schedules.
               user_id (schedules ! e) = Some (missing_user_id r) \<and>
               username (schedules ! e) = Some (missing_username r) \<and>
               start_minute r < end_minute r \<and>
               (\<exists>ou\<in>set (get_outage_intervals (get_outages (schedules ! e))).
                   fst ou \<le> start_minute r \<and> end_minute r \<le> snd ou) \<and>
               (\<exists>w\<in>set (fst (find_common_electricity_periods (other_schedules schedules e))).
                   fst w \<le> start_minute r \<and> end_minute r \<le> snd w))))"
proof (intro conjI impI)
  assume "length schedules < 2"
  then show "find_n_minus_one_periods schedules = Inr []"
    by (simp add: find_n_minus_one_periods_def)
next
  assume a: "2 \<le> length schedules \<and> list_all well_formed_entry schedules"
  then have keys: "\<forall>e\<in>set [0..<length schedules].
      user_id (schedules ! e) \<noteq> None \<and> username (schedules ! e) \<noteq> None"
    by (simp add: list_all_length well_formed_entry_def)
  from exclusion_loop_total [OF keys] obtain results where
    loop: "exclusion_loop schedules [0..<length schedules] [] = Inr results"
    by blast
  with a have res: "find_n_minus_one_periods schedules = Inr results"
    by (simp add: find_n_minus_one_periods_def)
  show "\<exists>results. find_n_minus_one_periods schedules = Inr results \<and>
           (\<forall>r\<in>set results. \<exists>e<length schedules.
               user_id (schedules ! e) = Some (missing_user_id r) \<and>
               username (schedules ! e) = Some (missing_username r) \<and>
               start_minute r < end_minute r \<and>
               (\<exists>ou\<in>set (get_outage_intervals (get_outages (schedules ! e))).
                   fst ou \<le> start_minute r \<and> end_minute r \<le> snd ou) \<and>
               (\<exists>w\<in>set (fst (find_common_electricity_periods (other_schedules schedules e))).
                   fst w \<le> start_minute r \<and> end_minute r \<le> snd w))"
  proof (intro exI [of _ results] conjI ballI)
    show "find_n_minus_one_periods schedules = Inr results" by (rule res)
  next
    fix r assume "r \<in> set results"
    then show "\<exists>e<length schedules.
               user_id (schedules ! e) = Some (missing_user_id r) \<and>
               username (schedules ! e) = Some (missing_username r) \<and>
               start_minute r < end_minute r \<and>
               (\<exists>ou\<in>set (get_outage_intervals (get_outages (schedules ! e))).
                   fst ou \<le> start_minute r \<and> end_minute r \<le> snd ou) \<and>
               (\<exists>w\<in>set (fst (find_common_electricity_periods (other_schedules schedules e))).
                   fst w \<le> start_minute r \<and> end_minute r \<le> snd w)"
      by (rule exclusion_loop_inside [OF loop])
  qed
qed

theorem exclusion_periods_inside_witness:
  "2 \<le> length [user_A, user_B] \<and> list_all well_formed_entry [user_A, user_B] \<and>
   find_n_minus_one_periods [user_A, user_B] =
     Inr [mk_exclusion 1 ''A'' 90 300, mk_exclusion 1 ''A'' 720 930, mk_exclusion 1 ''A'' 1350 1440,
          mk_exclusion 2 ''B'' 0 90, mk_exclusion 2 ''B'' 510 720, mk_exclusion 2 ''B'' 1140 1350]"
  using exclusion_periods_inside [of "[user_A, user_B]"] by (simp add: wf_AB n_minus_one_AB)

text \<open>
  C10. Every record returned by the exclusion analyzer is consistent: its duration is
  its end minus its start, its start is before its end, and its two clock strings are
  \<open>minutes_to_hhmm\<close> of its start and of its end.
\<close>

theorem exclusion_record_consistent:
  assumes "find_n_minus_one_periods schedules = Inr results" and "r \<in> set results"
  shows "duration_minutes r = end_minute r - start_minute r \<and>
         start_minute r < end_minute r \<and>
         start_hhmm r = minutes_to_hhmm (start_minute r) \<and>
         end_hhmm r = minutes_to_hhmm (end_minute r)"
proof -
  from assms have "exclusion_loop schedules [0..<length schedules] [] = Inr results"
    by (auto simp: find_n_minus_one_periods_def split: if_splits)
  from exclusion_loop_elem [OF this assms(2)] obtain e uid un where
    "r \<in> set (overlap_records uid un
                   (fst (find_common_electricity_periods (other_schedules schedules e)))
                   (get_outage_intervals (get_outages (schedules ! e))))"
    by auto
  from overlap_records_elem [OF this] show ?thesis
    by auto
qed

theorem exclusion_record_consistent_witness:
  "find_n_minus_one_periods [user_A, user_B] =
     Inr [mk_exclusion 1 ''A'' 90 300, mk_exclusion 1 ''A'' 720 930, mk_exclusion 1 ''A'' 1350 1440,
          mk_exclusion 2 ''B'' 0 90, mk_exclusion 2 ''B'' 510 720, mk_exclusion 2 ''B'' 1140 1350]
   \<and> duration_minutes (mk_exclusion 2 ''B'' 510 720) = 210
   \<and> start_minute (mk_exclusion 2 ''B'' 510 720) < end_minute (mk_exclusion 2 ''B'' 510 720)
   \<and> start_hhmm (mk_exclusion 2 ''B'' 510 720) = ''08:30''
   \<and> end_hhmm (mk_exclusion 2 ''B'' 510 720) = ''12:00''"
  using exclusion_record_consistent [OF n_minus_one_AB, of "mk_exclusion 2 ''B'' 510 720"]
  by (simp add: n_minus_one_AB mk_exclusion_def hhmm_scenario)

text \<open>
  C2. For a well-formed outage list of one user, a minute lies in an outage or in an
  availability window exactly when it is a minute of the day, from 0 up to but not
  including 1440, and no minute lies in both an outage and a window.
\<close>

theorem availability_partition:
  assumes "well_formed_outages os"
  shows "((minute_in (get_outage_intervals os) m \<or> minute_in (get_electricity_periods os) m)
            = (0 \<le> m \<and> m < 1440))
         \<and> \<not> (minute_in (get_outage_intervals os) m \<and> minute_in (get_electricity_periods os) m)"
proof (cases "get_outage_intervals os = []")
  case True
  then show ?thesis by (simp add: electricity_periods_unfold)
next
  case False
  let ?oi = "get_outage_intervals os"
  from assms have v: "list_all valid_outage ?oi" and n: "no_overlap ?oi"
    by (simp_all add: well_formed_outages_def)
  have c: "chain ?oi"
    using sorted_outage_intervals v n by (rule sorted_wf_chain)
  from chain_partition [OF c False, of m] have
    p1: "(minute_in ?oi m \<or> minute_in (gaps ?oi) m) = (fst (hd ?oi) \<le> m \<and> m < snd (last ?oi))" and
    p2: "\<not> (minute_in ?oi m \<and> minute_in (gaps ?oi) m)"
    by simp_all
  note b = valid_bounds [OF v False]
  have e: "fst (hd ?oi) < snd (last ?oi)"
    using chain_ends [OF c False] .
  show ?thesis
    unfolding electricity_periods_unfold using False p1 p2 b e by auto
qed

theorem availability_partition_witness:
  "well_formed_outages (get_outages user_A) \<and>
   \<not> minute_in (get_outage_intervals (get_outages user_A)) 400 \<and>
   minute_in (get_electricity_periods (get_outages user_A)) 400 \<and>
   minute_in (get_outage_intervals (get_outages user_A)) 800 \<and>
   \<not> minute_in (get_electricity_periods (get_outages user_A)) 800"
  using availability_partition [of "get_outages user_A" 400]
    availability_partition [of "get_outages user_A" 800]
  by (simp add: well_formed_outages_def outage_intervals_A electricity_periods_A
      valid_outage_def overlap_def)

text \<open>
  C8, as stated, fails: with the outages 2 to 3, 4 to 1 and 5 to 6 hours, the second
  of which ends before it starts, the windows are (0, 120), (180, 240), (60, 300) and
  (360, 1440), which are neither sorted by start nor free of overlap.
\<close>

theorem electricity_periods_ordered_counterexample:
  "get_electricity_periods [mk_outage 2 3, mk_outage 4 1, mk_outage 5 6]
     = [(0, 120), (180, 240), (60, 300), (360, 1440)] \<and>
   \<not> sorted (map fst (get_electricity_periods [mk_outage 2 3, mk_outage 4 1, mk_outage 5 6])) \<and>
   \<not> no_overlap (get_electricity_periods [mk_outage 2 3, mk_outage 4 1, mk_outage 5 6])"
  using electricity_periods_malformed by (simp add: malformed_outages_def overlap_def)

text \<open>
  C8, amended. For every outage list no window is of zero or negative length. When no
  outage interval ends before it starts (it may be of zero length, and outages may
  overlap), the windows are sorted ascending by start and no two of them overlap.
\<close>

theorem electricity_periods_ordered:
  "list_all (\<lambda>w. fst w < snd w) (get_electricity_periods os) \<and>
   (list_all (\<lambda>iv. fst iv \<le> snd iv) (get_outage_intervals os) \<longrightarrow>
      sorted (map fst (get_electricity_periods os)) \<and> no_overlap (get_electricity_periods os))"
proof (intro conjI impI)
  show ne: "list_all (\<lambda>w. fst w < snd w) (get_electricity_periods os)"
    by (simp add: list_all_iff electricity_periods_nonempty)
  assume "list_all (\<lambda>iv. fst iv \<le> snd iv) (get_outage_intervals os)"
  then have "\<forall>iv\<in>set (get_outage_intervals os). fst iv \<le> snd iv"
    by (simp add: list_all_iff)
  then have sep: "sorted_wrt (\<lambda>a b. snd a \<le> fst b) (get_electricity_periods os)"
    by (rule electricity_periods_separated)
  from sep show "no_overlap (get_electricity_periods os)"
    by (rule separated_no_overlap)
  from sep ne show "sorted (map fst (get_electricity_periods os))"
    by (intro separated_sorted_starts) (simp_all add: list_all_iff)
qed

theorem electricity_periods_ordered_witness:
  "list_all (\<lambda>iv. fst iv \<le> snd iv) (get_outage_intervals (get_outages user_B)) \<and>
   get_electricity_periods (get_outages user_B) = [(90, 510), (720, 1140), (1350, 1440)] \<and>
   sorted (map fst (get_electricity_periods (get_outages user_B))) \<and>
   no_overlap (get_electricity_periods (get_outages user_B))"
  using electricity_periods_ordered [of "get_outages user_B"]
  by (simp add: outage_intervals_B electricity_periods_B)

text \<open>
  C1. For at least two entries with well-formed outage lists, a minute of the day
  lies inside a period returned by the intersection engine exactly when it lies
  inside an availability window of every user; the returned periods are sorted
  ascending, no two of them overlap, and each period ends strictly before the next
  one starts, so that no period starts where the previous one ends. The proof uses
  the number of entries only: both ends of every window are sweep points, whatever
  the outage lists are.
\<close>

theorem common_periods_correct:
  assumes "2 \<le> length schedules"
    and "list_all (\<lambda>sch. well_formed_outages (get_outages sch)) schedules"
  shows "(0 \<le> m \<and> m < 1440 \<longrightarrow>
            minute_in (fst (find_common_electricity_periods schedules)) m
              = list_all (\<lambda>sch. minute_in (get_electricity_periods (get_outages sch)) m) schedules)
         \<and> sorted (map fst (fst (find_common_electricity_periods schedules)))
         \<and> no_overlap (fst (find_common_electricity_periods schedules))
         \<and> (\<forall>i. Suc i < length (fst (find_common_electricity_periods schedules)) \<longrightarrow>
               snd (fst (find_common_electricity_periods schedules) ! i)
                 < fst (fst (find_common_electricity_periods schedules) ! Suc i))"
proof -
  let ?cp = "fst (find_common_electricity_periods schedules)"
  note g = common_periods_general [OF assms(1)]
  have sep: "sorted_wrt (\<lambda>a b. snd a \<le> fst b) ?cp"
    using g(2) by (rule sorted_wrt_mono_rel [rotated]) simp
  have "0 \<le> m \<and> m < 1440 \<longrightarrow> minute_in ?cp m
      = list_all (\<lambda>sch. minute_in (get_electricity_periods (get_outages sch)) m) schedules"
    using g(1) [of m] by (simp add: all_have_power_iff list_all_iff)
  moreover have "sorted (map fst ?cp)"
    using sep g(3) by (rule separated_sorted_starts)
  moreover have "no_overlap ?cp"
    using sep by (rule separated_no_overlap)
  moreover have "\<forall>i. Suc i < length ?cp \<longrightarrow> snd (?cp ! i) < fst (?cp ! Suc i)"
    using sorted_wrt_nth_less [OF g(2)] by simp
  ultimately show ?thesis by blast
qed

theorem common_periods_correct_witness:
  "2 \<le> length [user_A, user_B]
   \<and> list_all (\<lambda>sch. well_formed_outages (get_outages sch)) [user_A, user_B]
   \<and> fst (find_common_electricity_periods [user_A, user_B]) = [(300, 510), (930, 1140)]
   \<and> minute_in (fst (find_common_electricity_periods [user_A, user_B])) 400
   \<and> list_all (\<lambda>sch. minute_in (get_electricity_periods (get_outages sch)) 400) [user_A, user_B]
   \<and> \<not> minute_in (fst (find_common_electricity_periods [user_A, user_B])) 600
   \<and> \<not> list_all (\<lambda>sch. minute_in (get_electricity_periods (get_outages sch)) 600) [user_A, user_B]"
  using common_periods_correct [of "[user_A, user_B]" 400]
    common_periods_correct [of "[user_A, user_B]" 600]
  by (simp add: wf_AB [unfolded well_formed_entry_def] common_periods_AB
      electricity_periods_A electricity_periods_B)

end
